theory Spec2Isabelle
  imports Main "HOL-Library.Char_ord"
begin

section \<open>Data model of \<^verbatim>\<open>src/bjh.ts\<close>\<close>

text \<open>
  The token kinds of \<^verbatim>\<open>enum BjType\<close>, in the order of their discriminants 0..7.
\<close>

datatype BjType = ERROR | END | ARRAY | OBJECT | NUMBER | STRING | BOOL | NULL

text \<open>
  \<^verbatim>\<open>interface BjReader\<close>. The field \<^verbatim>\<open>end\<close> is named \<open>end_r\<close> here. Positions and the depth
  are JavaScript numbers that the code only ever increments or decrements by whole
  amounts; they are integers here (the depth can become negative, so it is not a
  natural number). The error is \<^verbatim>\<open>string | null\<close>. The text is a list of characters,
  one per code unit of the JavaScript string; the scanner compares code units with
  ASCII characters only, so all others behave alike.
\<close>

record BjReader =
  data :: string
  cur :: int
  end_r :: int
  depth :: int
  error :: "string option"

text \<open>\<^verbatim>\<open>interface BjValue\<close>, with the fields \<^verbatim>\<open>type\<close>, \<^verbatim>\<open>start\<close>, \<^verbatim>\<open>end\<close>, \<^verbatim>\<open>depth\<close>.\<close>

record BjValue =
  type_v :: BjType
  start :: int
  end_v :: int
  depth_v :: int

text \<open>
  \<^verbatim>\<open>interface BjIteratorResult\<close> and \<^verbatim>\<open>interface BjObjectIteratorResult\<close>; an optional
  field that is absent is \<open>None\<close>.
\<close>

record BjIteratorResult =
  done_a :: bool
  value_a :: "BjValue option"

record BjObjectIteratorResult =
  done_o :: bool
  key_o :: "BjValue option"
  value_o :: "BjValue option"

definition bjReader :: "string \<Rightarrow> BjReader" where
  "bjReader d = \<lparr>data = d, cur = 0, end_r = int (length d), depth = 0, error = None\<rparr>"

text \<open>
  \<^verbatim>\<open>data[i]\<close>: the character at index \<open>i\<close>, or \<^verbatim>\<open>undefined\<close> (here \<open>None\<close>) when the index
  is outside the string.
\<close>

definition charAt :: "string \<Rightarrow> int \<Rightarrow> char option" where
  "charAt s i = (if 0 \<le> i \<and> i < int (length s) then Some (s ! nat i) else None)"

text \<open>
  The test \<^verbatim>\<open>if (r.error)\<close>: \<^verbatim>\<open>null\<close> and the empty string are falsy, every other
  string is truthy.
\<close>

definition truthy :: "string option \<Rightarrow> bool" where
  "truthy e = (case e of None \<Rightarrow> False | Some m \<Rightarrow> m \<noteq> [])"

text \<open>
  \<^verbatim>\<open>isNumberCont\<close>. On \<^verbatim>\<open>undefined\<close> every comparison of the source is false.
\<close>

definition isNumberCont :: "char option \<Rightarrow> bool" where
  "isNumberCont oc = (case oc of None \<Rightarrow> False
     | Some c \<Rightarrow> (CHR ''0'' \<le> c \<and> c \<le> CHR ''9'') \<or>
         c = CHR ''e'' \<or> c = CHR ''E'' \<or> c = CHR ''.'' \<or> c = CHR ''-'' \<or> c = CHR ''+'')"

text \<open>\<^verbatim>\<open>isString\<close>: the loop over the index \<open>i\<close> of \<open>expect\<close>, started at \<open>i = 0\<close>.\<close>

function isString_loop :: "string \<Rightarrow> int \<Rightarrow> int \<Rightarrow> string \<Rightarrow> nat \<Rightarrow> bool" where
  "isString_loop d c e expect i =
     (if i < length expect then
        (if c + int i \<ge> e \<or> charAt d (c + int i) \<noteq> Some (expect ! i) then False
         else isString_loop d c e expect (i + 1))
      else True)"
  by pat_completeness auto
termination
  by (relation "measure (\<lambda>(d, c, e, expect, i). length expect - i)") auto

definition isString :: "string \<Rightarrow> int \<Rightarrow> int \<Rightarrow> string \<Rightarrow> bool" where
  "isString d c e expect = isString_loop d c e expect 0"

section \<open>The scanner \<^verbatim>\<open>bjRead\<close>\<close>

text \<open>The value \<^verbatim>\<open>{ type: ERROR, start: r.cur, end: r.cur, depth: r.depth }\<close>.\<close>

definition errorValue :: "BjReader \<Rightarrow> BjValue" where
  "errorValue r = \<lparr>type_v = ERROR, start = cur r, end_v = cur r, depth_v = depth r\<rparr>"

text \<open>
  The inner loop of the number case:
  \<^verbatim>\<open>while (r.cur < r.end && isNumberCont(r.data[r.cur])) r.cur++\<close>.
\<close>

function bjRead_number_loop :: "BjReader \<Rightarrow> BjReader" where
  "bjRead_number_loop r =
     (if cur r < end_r r \<and> isNumberCont (charAt (data r) (cur r))
      then bjRead_number_loop (r\<lparr>cur := cur r + 1\<rparr>)
      else r)"
  by pat_completeness auto
termination
  by (relation "measure (\<lambda>r. nat (end_r r - cur r))") auto

text \<open>
  The inner loop of the string case, entered with the cursor just after the opening
  quote. The result is the reader when the loop is left, and whether it was left by
  \<^verbatim>\<open>break\<close> at a closing quote (\<open>True\<close>) or because the input ran out (\<open>False\<close>).
\<close>

function bjRead_string_loop :: "BjReader \<Rightarrow> BjReader \<times> bool" where
  "bjRead_string_loop r =
     (if cur r \<ge> end_r r then (r, False)
      else if charAt (data r) (cur r) = Some (CHR 0x22) then (r, True)
      else
        let r1 = (if charAt (data r) (cur r) = Some (CHR 0x5C) then r\<lparr>cur := cur r + 1\<rparr> else r);
            r2 = (if cur r1 < end_r r1 then r1\<lparr>cur := cur r1 + 1\<rparr> else r1)
        in bjRead_string_loop r2)"
  by pat_completeness auto
termination
  by (relation "measure (\<lambda>r. nat (end_r r - cur r))") (auto simp: Let_def)

text \<open>
  One pass through the body of \<^verbatim>\<open>while (true)\<close> in \<^verbatim>\<open>bjRead\<close>: it either returns a value
  (with the reader as the pass leaves it) or reaches \<^verbatim>\<open>continue\<close>.
\<close>

datatype bjRead_pass = Return BjReader BjValue | Continue BjReader

definition unknownToken :: "BjReader \<Rightarrow> bjRead_pass" where
  "unknownToken r = (let r' = r\<lparr>error := Some ''unknown token''\<rparr> in Return r' (errorValue r'))"

definition bjRead_body :: "BjReader \<Rightarrow> bjRead_pass" where
  "bjRead_body r =
    (if truthy (error r) then Return r (errorValue r)
     else if cur r \<ge> end_r r then
       (let r' = r\<lparr>error := Some ''unexpected eof''\<rparr> in Return r' (errorValue r'))
     else
       let res = errorValue r; c = charAt (data r) (cur r) in
       if c \<in> {Some (CHR '' ''), Some (CHR 0x0A), Some (CHR 0x0D), Some (CHR 0x09),
                Some (CHR '':''), Some (CHR '','')} then
         Continue (r\<lparr>cur := cur r + 1\<rparr>)
       else if c \<in> {Some (CHR ''-''), Some (CHR ''0''), Some (CHR ''1''), Some (CHR ''2''),
                Some (CHR ''3''), Some (CHR ''4''), Some (CHR ''5''), Some (CHR ''6''),
                Some (CHR ''7''), Some (CHR ''8''), Some (CHR ''9'')} then
         (let r' = bjRead_number_loop r
          in Return r' (res\<lparr>type_v := NUMBER, end_v := cur r'\<rparr>))
       else if c = Some (CHR 0x22) then
         (let r1 = r\<lparr>cur := cur r + 1\<rparr>;
              res1 = res\<lparr>type_v := STRING, start := cur r1\<rparr>;
              (r2, closed) = bjRead_string_loop r1
          in if \<not> closed then
               (let r3 = r2\<lparr>error := Some ''unclosed string''\<rparr>
                in Return r3 \<lparr>type_v = ERROR, start = start res1 - 1, end_v = cur r3,
                              depth_v = depth r3\<rparr>)
             else Return (r2\<lparr>cur := cur r2 + 1\<rparr>) (res1\<lparr>end_v := cur r2\<rparr>))
       else if c \<in> {Some (CHR ''{''), Some (CHR ''['')} then
         (let r1 = r\<lparr>depth := depth r + 1\<rparr>;
              res1 = res\<lparr>type_v := (if c = Some (CHR ''{'') then OBJECT else ARRAY),
                         depth_v := depth r1\<rparr>;
              r2 = r1\<lparr>cur := cur r1 + 1\<rparr>
          in Return r2 (res1\<lparr>end_v := cur r2\<rparr>))
       else if c \<in> {Some (CHR ''}''), Some (CHR '']'')} then
         (let r1 = r\<lparr>depth := depth r - 1\<rparr> in
          if depth r1 < 0 then
            (let r2 = r1\<lparr>error := Some (if c = Some (CHR ''}'')
                                           then ''stray '' @ [CHR 0x27, CHR ''}'', CHR 0x27]
                                           else ''stray '' @ [CHR 0x27, CHR '']'', CHR 0x27])\<rparr>
             in Return r2 \<lparr>type_v = ERROR, start = cur r2, end_v = cur r2 + 1,
                           depth_v = depth r2 + 1\<rparr>)
          else
            (let r2 = r1\<lparr>cur := cur r1 + 1\<rparr>
             in Return r2 (res\<lparr>type_v := END, end_v := cur r2\<rparr>)))
       else if c \<in> {Some (CHR ''n''), Some (CHR ''t''), Some (CHR ''f'')} then
         (let res1 = res\<lparr>type_v := (if c = Some (CHR ''n'') then NULL else BOOL)\<rparr> in
          if isString (data r) (cur r) (end_r r) ''null'' then
            (let r' = r\<lparr>cur := cur r + 4\<rparr> in Return r' (res1\<lparr>end_v := cur r'\<rparr>))
          else if isString (data r) (cur r) (end_r r) ''true'' then
            (let r' = r\<lparr>cur := cur r + 4\<rparr> in Return r' (res1\<lparr>end_v := cur r'\<rparr>))
          else if isString (data r) (cur r) (end_r r) ''false'' then
            (let r' = r\<lparr>cur := cur r + 5\<rparr> in Return r' (res1\<lparr>end_v := cur r'\<rparr>))
          else unknownToken r)
       else unknownToken r)"

lemma bjRead_body_Continue:
  "bjRead_body r = Continue r' \<Longrightarrow>
     cur r < end_r r \<and> r' = r\<lparr>cur := cur r + 1\<rparr>"
  unfolding bjRead_body_def unknownToken_def Let_def
  by (simp split: if_splits prod.splits)

text \<open>\<^verbatim>\<open>bjRead\<close>: the passes are repeated until one returns.\<close>

function bjRead :: "BjReader \<Rightarrow> BjReader \<times> BjValue" where
  "bjRead r = (case bjRead_body r of Return r' v \<Rightarrow> (r', v) | Continue r' \<Rightarrow> bjRead r')"
  by pat_completeness auto
termination
proof (relation "measure (\<lambda>r. nat (end_r r - cur r))")
  show "wf (measure (\<lambda>r. nat (end_r r - cur r)))" by simp
next
  fix r r'
  assume "bjRead_body r = Continue r'"
  from bjRead_body_Continue [OF this]
  show "(r', r) \<in> measure (\<lambda>r. nat (end_r r - cur r))" by auto
qed

section \<open>Frame properties of the scanner\<close>

declare bjRead_number_loop.simps [simp del] bjRead_string_loop.simps [simp del]
  isString_loop.simps [simp del] bjRead.simps [simp del]

lemma number_loop_frame:
  "\<exists>c. bjRead_number_loop r = r\<lparr>cur := c\<rparr> \<and> cur r \<le> c \<and> (cur r \<le> end_r r \<longrightarrow> c \<le> end_r r)"
proof (induction r rule: bjRead_number_loop.induct)
  case (1 r)
  show ?case
  proof (cases "cur r < end_r r \<and> isNumberCont (charAt (data r) (cur r))")
    case True
    with 1 obtain c where c: "bjRead_number_loop (r\<lparr>cur := cur r + 1\<rparr>) = r\<lparr>cur := c\<rparr>"
      "cur r + 1 \<le> c" "c \<le> end_r r" by auto
    from True c show ?thesis
      by (subst bjRead_number_loop.simps) auto
  next
    case False
    then have "bjRead_number_loop r = r" by (subst bjRead_number_loop.simps) auto
    then show ?thesis by (intro exI [of _ "cur r"]) auto
  qed
qed

lemma number_loop_advances:
  "cur r < end_r r \<Longrightarrow> isNumberCont (charAt (data r) (cur r)) \<Longrightarrow> cur r < cur (bjRead_number_loop r)"
  using number_loop_frame [of "r\<lparr>cur := cur r + 1\<rparr>"]
  by (subst bjRead_number_loop.simps) auto

lemma string_loop_frame:
  "\<exists>c. fst (bjRead_string_loop r) = r\<lparr>cur := c\<rparr> \<and> cur r \<le> c \<and> (cur r \<le> end_r r \<longrightarrow> c \<le> end_r r)
     \<and> (snd (bjRead_string_loop r) \<longrightarrow> c < end_r r \<and> charAt (data r) c = Some (CHR 0x22))
     \<and> (\<not> snd (bjRead_string_loop r) \<longrightarrow> c \<ge> end_r r)"
proof (induction r rule: bjRead_string_loop.induct)
  case (1 r)
  show ?case
  proof (cases "cur r \<ge> end_r r \<or> charAt (data r) (cur r) = Some (CHR 0x22)")
    case True
    then show ?thesis
      by (subst (1 2 3) bjRead_string_loop.simps) (auto intro!: exI [of _ "cur r"])
  next
    case False
    define r1 where "r1 = (if charAt (data r) (cur r) = Some (CHR 0x5C) then r\<lparr>cur := cur r + 1\<rparr> else r)"
    define r2 where "r2 = (if cur r1 < end_r r1 then r1\<lparr>cur := cur r1 + 1\<rparr> else r1)"
    have eq: "bjRead_string_loop r = bjRead_string_loop r2"
      using False by (subst bjRead_string_loop.simps) (simp add: r1_def r2_def Let_def)
    have r2: "r2 = r\<lparr>cur := cur r2\<rparr>" "cur r < cur r2" "cur r2 \<le> end_r r"
      using False by (auto simp: r1_def r2_def)
    from 1 [OF _ _ r1_def r2_def] False
    obtain c where c: "fst (bjRead_string_loop r2) = r2\<lparr>cur := c\<rparr>" "cur r2 \<le> c"
      "cur r2 \<le> end_r r2 \<longrightarrow> c \<le> end_r r2"
      "snd (bjRead_string_loop r2) \<longrightarrow> c < end_r r2 \<and> charAt (data r2) c = Some (CHR 0x22)"
      "\<not> snd (bjRead_string_loop r2) \<longrightarrow> c \<ge> end_r r2"
      by auto
    have d: "data r2 = data r" "end_r r2 = end_r r" "r2\<lparr>cur := c\<rparr> = r\<lparr>cur := c\<rparr>"
      by (auto simp: r1_def r2_def)
    show ?thesis
      unfolding eq using c r2 d by (intro exI [of _ c]) auto
  qed
qed

lemma isString_loop_bound:
  "isString_loop d c e expect i \<Longrightarrow> i < length expect \<Longrightarrow> c + int (length expect) \<le> e"
proof (induction d c e expect i rule: isString_loop.induct)
  case (1 d c e expect i)
  from "1.prems" have a: "c + int i < e" "isString_loop d c e expect (i + 1)"
     "charAt d (c + int i) = Some (expect ! i)"
    by (subst (asm) isString_loop.simps, auto split: if_splits)+
  show ?case
  proof (cases "i + 1 < length expect")
    case True
    with 1 a show ?thesis by (auto split: if_splits)
  next
    case False
    with "1.prems" a show ?thesis by auto
  qed
qed

lemma isString_bound:
  "isString d c e expect \<Longrightarrow> expect \<noteq> [] \<Longrightarrow> c + int (length expect) \<le> e"
  unfolding isString_def using isString_loop_bound [of d c e expect 0] by simp

lemma bjRead_body_error:
  "truthy (error r) \<Longrightarrow> bjRead_body r = Return r (errorValue r)"
  by (simp add: bjRead_body_def)

lemma bjRead_body_eof:
  "\<not> truthy (error r) \<Longrightarrow> end_r r \<le> cur r \<Longrightarrow>
     bjRead_body r = Return (r\<lparr>error := Some ''unexpected eof''\<rparr>)
       (errorValue (r\<lparr>error := Some ''unexpected eof''\<rparr>))"
  by (simp add: bjRead_body_def Let_def)

lemma bjRead_body_separator:
  "\<not> truthy (error r) \<Longrightarrow> cur r < end_r r \<Longrightarrow>
     charAt (data r) (cur r) \<in> {Some (CHR '' ''), Some (CHR 0x0A), Some (CHR 0x0D),
        Some (CHR 0x09), Some (CHR '':''), Some (CHR '','')} \<Longrightarrow>
     bjRead_body r = Continue (r\<lparr>cur := cur r + 1\<rparr>)"
  by (elim insertE emptyE; simp add: bjRead_body_def Let_def)

lemma bjRead_body_number:
  "\<not> truthy (error r) \<Longrightarrow> cur r < end_r r \<Longrightarrow>
     charAt (data r) (cur r) \<in> {Some (CHR ''-''), Some (CHR ''0''), Some (CHR ''1''),
        Some (CHR ''2''), Some (CHR ''3''), Some (CHR ''4''), Some (CHR ''5''),
        Some (CHR ''6''), Some (CHR ''7''), Some (CHR ''8''), Some (CHR ''9'')} \<Longrightarrow>
     bjRead_body r = Return (bjRead_number_loop r)
       \<lparr>type_v = NUMBER, start = cur r, end_v = cur (bjRead_number_loop r), depth_v = depth r\<rparr>"
  by (elim insertE emptyE; simp add: bjRead_body_def Let_def errorValue_def)

lemma bjRead_body_string:
  "\<not> truthy (error r) \<Longrightarrow> cur r < end_r r \<Longrightarrow> charAt (data r) (cur r) = Some (CHR 0x22) \<Longrightarrow>
     bjRead_body r =
       (case bjRead_string_loop (r\<lparr>cur := cur r + 1\<rparr>) of
          (r2, closed) \<Rightarrow>
            if closed then Return (r2\<lparr>cur := cur r2 + 1\<rparr>)
                 \<lparr>type_v = STRING, start = cur r + 1, end_v = cur r2, depth_v = depth r\<rparr>
            else Return (r2\<lparr>error := Some ''unclosed string''\<rparr>)
                 \<lparr>type_v = ERROR, start = cur r, end_v = cur r2, depth_v = depth r2\<rparr>)"
  by (simp add: bjRead_body_def Let_def errorValue_def split: prod.splits)

lemma bjRead_body_open:
  "\<not> truthy (error r) \<Longrightarrow> cur r < end_r r \<Longrightarrow>
     charAt (data r) (cur r) \<in> {Some (CHR ''{''), Some (CHR ''['')} \<Longrightarrow>
     bjRead_body r = Return (r\<lparr>cur := cur r + 1, depth := depth r + 1\<rparr>)
       \<lparr>type_v = (if charAt (data r) (cur r) = Some (CHR ''{'') then OBJECT else ARRAY),
        start = cur r, end_v = cur r + 1, depth_v = depth r + 1\<rparr>"
  by (elim insertE emptyE; simp add: bjRead_body_def Let_def errorValue_def)

lemma bjRead_body_close:
  "\<not> truthy (error r) \<Longrightarrow> cur r < end_r r \<Longrightarrow>
     charAt (data r) (cur r) \<in> {Some (CHR ''}''), Some (CHR '']'')} \<Longrightarrow>
     bjRead_body r =
       (if depth r - 1 < 0 then
          Return (r\<lparr>depth := depth r - 1,
                    error := Some (''stray '' @ [CHR 0x27, the (charAt (data r) (cur r)), CHR 0x27])\<rparr>)
            \<lparr>type_v = ERROR, start = cur r, end_v = cur r + 1, depth_v = depth r\<rparr>
        else Return (r\<lparr>cur := cur r + 1, depth := depth r - 1\<rparr>)
            \<lparr>type_v = END, start = cur r, end_v = cur r + 1, depth_v = depth r\<rparr>)"
  by (elim insertE emptyE; simp add: bjRead_body_def Let_def errorValue_def)

lemma bjRead_body_literal:
  "\<not> truthy (error r) \<Longrightarrow> cur r < end_r r \<Longrightarrow>
     charAt (data r) (cur r) \<in> {Some (CHR ''n''), Some (CHR ''t''), Some (CHR ''f'')} \<Longrightarrow>
     bjRead_body r =
       (let ty = (if charAt (data r) (cur r) = Some (CHR ''n'') then NULL else BOOL) in
        if isString (data r) (cur r) (end_r r) ''null'' then
          Return (r\<lparr>cur := cur r + 4\<rparr>)
            \<lparr>type_v = ty, start = cur r, end_v = cur r + 4, depth_v = depth r\<rparr>
        else if isString (data r) (cur r) (end_r r) ''true'' then
          Return (r\<lparr>cur := cur r + 4\<rparr>)
            \<lparr>type_v = ty, start = cur r, end_v = cur r + 4, depth_v = depth r\<rparr>
        else if isString (data r) (cur r) (end_r r) ''false'' then
          Return (r\<lparr>cur := cur r + 5\<rparr>)
            \<lparr>type_v = ty, start = cur r, end_v = cur r + 5, depth_v = depth r\<rparr>
        else unknownToken r)"
  by (elim insertE emptyE; simp add: bjRead_body_def Let_def errorValue_def)

lemma bjRead_body_other:
  "\<not> truthy (error r) \<Longrightarrow> cur r < end_r r \<Longrightarrow> c = charAt (data r) (cur r) \<Longrightarrow>
     c \<notin> {Some (CHR '' ''), Some (CHR 0x0A), Some (CHR 0x0D), Some (CHR 0x09),
                Some (CHR '':''), Some (CHR '','')} \<Longrightarrow>
     c \<notin> {Some (CHR ''-''), Some (CHR ''0''), Some (CHR ''1''), Some (CHR ''2''),
                Some (CHR ''3''), Some (CHR ''4''), Some (CHR ''5''), Some (CHR ''6''),
                Some (CHR ''7''), Some (CHR ''8''), Some (CHR ''9'')} \<Longrightarrow>
     c \<noteq> Some (CHR 0x22) \<Longrightarrow>
     c \<notin> {Some (CHR ''{''), Some (CHR ''['')} \<Longrightarrow>
     c \<notin> {Some (CHR ''}''), Some (CHR '']'')} \<Longrightarrow>
     c \<notin> {Some (CHR ''n''), Some (CHR ''t''), Some (CHR ''f'')} \<Longrightarrow>
     bjRead_body r = unknownToken r"
  by (simp add: bjRead_body_def Let_def)

definition frame :: "BjReader \<Rightarrow> BjReader \<Rightarrow> BjValue \<Rightarrow> bool" where
  "frame r r' v \<longleftrightarrow> data r' = data r \<and> end_r r' = end_r r \<and> cur r \<le> cur r' \<and>
     (cur r \<le> end_r r \<longrightarrow> cur r' \<le> end_r r) \<and>
     (type_v v \<noteq> ERROR \<longrightarrow> cur r < cur r' \<and> cur r' \<le> end_r r \<and> error r' = error r) \<and>
     (type_v v = ERROR \<longrightarrow> truthy (error r'))"

lemma bjRead_body_Return:
  assumes "bjRead_body r = Return r' v"
  shows "frame r r' v"
proof (cases "truthy (error r)")
  case True
  with assms show ?thesis by (auto simp add: bjRead_body_error errorValue_def frame_def)
next
  case ne: False
  show ?thesis
  proof (cases "end_r r \<le> cur r")
    case True
    with ne assms show ?thesis
      by (auto simp add: bjRead_body_eof errorValue_def frame_def truthy_def)
  next
    case False
    then have lt: "cur r < end_r r" by simp
    define c where "c = charAt (data r) (cur r)"
    define issep where "issep \<longleftrightarrow> c \<in> {Some (CHR '' ''), Some (CHR 0x0A), Some (CHR 0x0D),
        Some (CHR 0x09), Some (CHR '':''), Some (CHR '','')}"
    define isnum where "isnum \<longleftrightarrow> c \<in> {Some (CHR ''-''), Some (CHR ''0''), Some (CHR ''1''),
        Some (CHR ''2''), Some (CHR ''3''), Some (CHR ''4''), Some (CHR ''5''),
        Some (CHR ''6''), Some (CHR ''7''), Some (CHR ''8''), Some (CHR ''9'')}"
    define isstr where "isstr \<longleftrightarrow> c = Some (CHR 0x22)"
    define isopn where "isopn \<longleftrightarrow> c \<in> {Some (CHR ''{''), Some (CHR ''['')}"
    define iscls where "iscls \<longleftrightarrow> c \<in> {Some (CHR ''}''), Some (CHR '']'')}"
    define islit where "islit \<longleftrightarrow> c \<in> {Some (CHR ''n''), Some (CHR ''t''), Some (CHR ''f'')}"
    consider (sep) issep | (num) isnum | (str) isstr | (opn) isopn | (cls) iscls | (lit) islit
      | (other) "\<not> issep" "\<not> isnum" "\<not> isstr" "\<not> isopn" "\<not> iscls" "\<not> islit"
      by blast
    then show ?thesis
    proof cases
      case sep
      from bjRead_body_separator [OF ne lt sep [unfolded issep_def c_def]] assms
      show ?thesis by simp
    next
      case num
      have nc: "isNumberCont (charAt (data r) (cur r))"
        using num unfolding isnum_def c_def by (elim insertE emptyE; simp add: isNumberCont_def)
      from bjRead_body_number [OF ne lt num [unfolded isnum_def c_def]] assms
      have "r' = bjRead_number_loop r" "type_v v = NUMBER" by auto
      with number_loop_frame [of r] number_loop_advances [OF lt nc] lt
      show ?thesis by (auto simp: frame_def)
    next
      case str
      obtain r2 closed where sl: "bjRead_string_loop (r\<lparr>cur := cur r + 1\<rparr>) = (r2, closed)"
        by (cases "bjRead_string_loop (r\<lparr>cur := cur r + 1\<rparr>)")
      from string_loop_frame [of "r\<lparr>cur := cur r + 1\<rparr>"] sl lt
      obtain k where k: "r2 = r\<lparr>cur := k\<rparr>" "cur r + 1 \<le> k" "k \<le> end_r r"
        "closed \<longrightarrow> k < end_r r" by auto
      from bjRead_body_string [OF ne lt str [unfolded isstr_def c_def]] assms sl k
      show ?thesis by (auto simp: frame_def truthy_def split: if_splits)
    next
      case opn
      from bjRead_body_open [OF ne lt opn [unfolded isopn_def c_def]] assms lt
      show ?thesis by (auto simp: frame_def)
    next
      case cls
      from bjRead_body_close [OF ne lt cls [unfolded iscls_def c_def]] assms lt
      show ?thesis by (auto simp: frame_def truthy_def split: if_splits)
    next
      case lit
      from bjRead_body_literal [OF ne lt lit [unfolded islit_def c_def]] assms lt
        isString_bound [of "data r" "cur r" "end_r r" "''null''"]
        isString_bound [of "data r" "cur r" "end_r r" "''true''"]
        isString_bound [of "data r" "cur r" "end_r r" "''false''"]
      show ?thesis
        by (auto simp: frame_def truthy_def unknownToken_def errorValue_def Let_def split: if_splits)
    next
      case other
      from bjRead_body_other [OF ne lt c_def other [unfolded issep_def isnum_def isstr_def isopn_def iscls_def islit_def]] assms
      show ?thesis
        by (auto simp: frame_def truthy_def unknownToken_def errorValue_def Let_def)
    qed
  qed
qed

lemma bjRead_frame: "bjRead r = (r', v) \<Longrightarrow> frame r r' v"
proof (induction r rule: bjRead.induct)
  case (1 r)
  show ?case
  proof (cases "bjRead_body r")
    case (Return r1 v1)
    with "1.prems" have "r' = r1" "v = v1" by (simp_all add: bjRead.simps [of r])
    with Return show ?thesis by (simp add: bjRead_body_Return)
  next
    case (Continue r1)
    with "1.prems" have "bjRead r1 = (r', v)" by (simp add: bjRead.simps [of r])
    from "1.IH" [OF Continue this] bjRead_body_Continue [OF Continue]
    show ?thesis by (auto simp: frame_def)
  qed
qed

text \<open>
  \<^verbatim>\<open>isNumberCont\<close> holds of exactly the fifteen characters \<^verbatim>\<open>0123456789eE.+-\<close>.
\<close>

lemma digit_range: "CHR ''0'' \<le> c \<and> c \<le> CHR ''9'' \<longleftrightarrow> c \<in> set ''0123456789''"
proof
  assume a: "CHR ''0'' \<le> c \<and> c \<le> CHR ''9''"
  then have b: "48 \<le> (of_char c :: nat) \<and> (of_char c :: nat) \<le> 57"
    by (simp add: less_eq_char_def)
  have "(of_char c :: nat) = of_char (CHR ''0'') \<or> (of_char c :: nat) = of_char (CHR ''1'')
      \<or> (of_char c :: nat) = of_char (CHR ''2'') \<or> (of_char c :: nat) = of_char (CHR ''3'')
      \<or> (of_char c :: nat) = of_char (CHR ''4'') \<or> (of_char c :: nat) = of_char (CHR ''5'')
      \<or> (of_char c :: nat) = of_char (CHR ''6'') \<or> (of_char c :: nat) = of_char (CHR ''7'')
      \<or> (of_char c :: nat) = of_char (CHR ''8'') \<or> (of_char c :: nat) = of_char (CHR ''9'')"
    using b unfolding of_char_Char by simp arith
  then have "c = CHR ''0'' \<or> c = CHR ''1'' \<or> c = CHR ''2'' \<or> c = CHR ''3'' \<or> c = CHR ''4''
      \<or> c = CHR ''5'' \<or> c = CHR ''6'' \<or> c = CHR ''7'' \<or> c = CHR ''8'' \<or> c = CHR ''9''"
    by (simp only: of_char_eq_iff)
  then show "c \<in> set ''0123456789''" by auto
next
  assume "c \<in> set ''0123456789''"
  then show "CHR ''0'' \<le> c \<and> c \<le> CHR ''9''"
    by (auto simp: less_eq_char_def)
qed

lemma isNumberCont_set:
  "isNumberCont oc \<longleftrightarrow> (\<exists>c \<in> set ''0123456789eE.+-''. oc = Some c)"
proof (cases oc)
  case None
  then show ?thesis by (simp add: isNumberCont_def)
next
  case (Some c)
  have "isNumberCont (Some c) \<longleftrightarrow> c \<in> set ''0123456789'' \<or> c \<in> set ''eE.-+''"
    unfolding isNumberCont_def option.case digit_range by auto
  with Some show ?thesis by auto
qed

text \<open>
  A separator (blank, line feed, carriage return, tab, colon, comma) under the cursor is
  passed over: the scan is the scan from the next position.
\<close>

lemma bjRead_skip_separator:
  "\<not> truthy (error r) \<Longrightarrow> cur r < end_r r \<Longrightarrow>
     charAt (data r) (cur r) \<in> {Some (CHR '' ''), Some (CHR 0x0A), Some (CHR 0x0D),
        Some (CHR 0x09), Some (CHR '':''), Some (CHR '','')} \<Longrightarrow>
     bjRead r = bjRead (r\<lparr>cur := cur r + 1\<rparr>)"
  by (simp add: bjRead.simps [of r] bjRead_body_separator)

section \<open>Discarding to a depth, and the iterators\<close>

text \<open>
  \<^verbatim>\<open>bjDiscardUntil\<close>: the loop \<^verbatim>\<open>while (r.depth !== depth && val.type !== ERROR) val = bjRead(r)\<close>
  with its loop variable \<open>val\<close>, which starts as a \<^verbatim>\<open>NULL\<close> value.
\<close>

function bjDiscardUntil_loop :: "BjReader \<Rightarrow> int \<Rightarrow> BjValue \<Rightarrow> BjReader" where
  "bjDiscardUntil_loop r d val =
     (if depth r \<noteq> d \<and> type_v val \<noteq> ERROR
      then (case bjRead r of (r', val') \<Rightarrow> bjDiscardUntil_loop r' d val')
      else r)"
  by pat_completeness auto
termination
  apply (relation "measure (\<lambda>(r, d, val). if type_v val = ERROR then 0 else 1 + nat (end_r r - cur r))")
   apply simp
  subgoal for r d val r' val'
    using bjRead_frame [of r r' val'] by (auto simp: frame_def)
  done

definition bjDiscardUntil :: "BjReader \<Rightarrow> int \<Rightarrow> BjReader" where
  "bjDiscardUntil r d =
     bjDiscardUntil_loop r d \<lparr>type_v = NULL, start = 0, end_v = 0, depth_v = 0\<rparr>"

definition bjIterArray :: "BjReader \<Rightarrow> BjValue \<Rightarrow> BjReader \<times> BjIteratorResult" where
  "bjIterArray r arr =
     (let r1 = bjDiscardUntil r (depth_v arr);
          (r2, val) = bjRead r1
      in if type_v val = ERROR \<or> type_v val = END
         then (r2, \<lparr>done_a = True, value_a = None\<rparr>)
         else (r2, \<lparr>done_a = False, value_a = Some val\<rparr>))"

definition bjIterObject :: "BjReader \<Rightarrow> BjValue \<Rightarrow> BjReader \<times> BjObjectIteratorResult" where
  "bjIterObject r obj =
     (let r1 = bjDiscardUntil r (depth_v obj);
          (r2, key) = bjRead r1
      in if type_v key = ERROR \<or> type_v key = END
         then (r2, \<lparr>done_o = True, key_o = None, value_o = None\<rparr>)
         else
           let (r3, val) = bjRead r2 in
           if type_v val = END
           then (r3\<lparr>error := Some ''unexpected object end''\<rparr>,
                 \<lparr>done_o = True, key_o = None, value_o = None\<rparr>)
           else if type_v val = ERROR
           then (r3, \<lparr>done_o = True, key_o = None, value_o = None\<rparr>)
           else (r3, \<lparr>done_o = False, key_o = Some key, value_o = Some val\<rparr>))"

section \<open>Value accessors\<close>

text \<open>
  \<^verbatim>\<open>String.prototype.substring\<close>: both indices are clamped to the string, and swapped
  when the first is the larger.
\<close>

definition substring :: "string \<Rightarrow> int \<Rightarrow> int \<Rightarrow> string" where
  "substring s a b =
     (let len = int (length s);
          fs = min (max a 0) len;
          fe = min (max b 0) len;
          lo = min fs fe;
          hi = max fs fe
      in take (nat (hi - lo)) (drop (nat lo) s))"

text \<open>
  \<^verbatim>\<open>parseFloat\<close> is JavaScript's built-in, not code of this repository. It is modelled
  after ECMA-262: leading white space is dropped, the longest prefix that is a
  \<^verbatim>\<open>StrDecimalLiteral\<close> is read, and the result is not-a-number when there is none.
  The prefix has the mathematical value \<open>m \<times> 10\<^sup>e\<close>, which the built-in rounds to a
  binary64 number. The rounding is not computed here. \<open>Decimal m e\<close> is returned only
  for an integer of magnitude at most \<open>2\<^sup>5\<^sup>3\<close>, which binary64 holds exactly, so that the
  result is that number; in every other case the result is \<open>Rounded m e\<close>, standing for
  the binary64 number nearest to \<open>m \<times> 10\<^sup>e\<close> (an infinity beyond the range, a zero below
  it). A zero with a minus sign is \<open>NegZero\<close>.
\<close>

datatype js_number = NaN | Infinity bool | NegZero | Decimal int int | Rounded int int

definition isWhiteSpace :: "char \<Rightarrow> bool" where
  "isWhiteSpace c \<longleftrightarrow> c \<in> {CHR 0x09, CHR 0x0A, CHR 0x0B, CHR 0x0C, CHR 0x0D, CHR 0x20, CHR 0xA0}"

definition isDigit :: "char \<Rightarrow> bool" where
  "isDigit c \<longleftrightarrow> CHR ''0'' \<le> c \<and> c \<le> CHR ''9''"

definition digitsValue :: "string \<Rightarrow> int" where
  "digitsValue ds = foldl (\<lambda>acc d. acc * 10 + (int (of_char d) - 48)) 0 ds"

definition parseExponent :: "string \<Rightarrow> int" where
  "parseExponent s =
     (case s of
        [] \<Rightarrow> 0
      | c # rest \<Rightarrow>
          if c = CHR ''e'' \<or> c = CHR ''E'' then
            (case rest of
               [] \<Rightarrow> 0
             | d # rest' \<Rightarrow>
                 if d = CHR ''-'' then
                   (if takeWhile isDigit rest' = [] then 0
                    else - digitsValue (takeWhile isDigit rest'))
                 else if d = CHR ''+'' then digitsValue (takeWhile isDigit rest')
                 else digitsValue (takeWhile isDigit rest))
          else 0)"

definition parseFloat :: "string \<Rightarrow> js_number" where
  "parseFloat s =
     (let trimmed = dropWhile isWhiteSpace s;
          neg = (case trimmed of [] \<Rightarrow> False | c # _ \<Rightarrow> c = CHR ''-'');
          signed = (case trimmed of [] \<Rightarrow> False | c # _ \<Rightarrow> c = CHR ''-'' \<or> c = CHR ''+'');
          body = (if signed then tl trimmed else trimmed)
      in if take 8 body = ''Infinity'' then Infinity neg
         else
           let ds1 = takeWhile isDigit body;
               r1 = dropWhile isDigit body;
               dot = (case r1 of [] \<Rightarrow> False | c # _ \<Rightarrow> c = CHR ''.'');
               ds2 = (if dot then takeWhile isDigit (tl r1) else []);
               r2 = (if dot then dropWhile isDigit (tl r1) else r1)
           in if ds1 = [] \<and> ds2 = [] then NaN
              else
                let m = digitsValue (ds1 @ ds2);
                    e = parseExponent r2 - int (length ds2)
                in if m = 0 then (if neg then NegZero else Decimal 0 0)
                   else if 0 \<le> e \<and> e \<le> 15 \<and> m * 10 ^ nat e \<le> 2 ^ 53
                   then Decimal ((if neg then - m else m) * 10 ^ nat e) 0
                   else Rounded (if neg then - m else m) e)"

text \<open>
  The accessors. \<^verbatim>\<open>throw new Error(msg)\<close> is the result \<open>Inl (Error msg)\<close>.
\<close>

datatype js_exception = Error string

definition bjGetString :: "BjReader \<Rightarrow> BjValue \<Rightarrow> js_exception + string" where
  "bjGetString r val =
     (if type_v val \<noteq> STRING then Inl (Error ''Value is not a string'')
      else Inr (substring (data r) (start val) (end_v val)))"

definition bjGetNumber :: "BjReader \<Rightarrow> BjValue \<Rightarrow> js_exception + js_number" where
  "bjGetNumber r val =
     (if type_v val \<noteq> NUMBER then Inl (Error ''Value is not a number'')
      else Inr (parseFloat (substring (data r) (start val) (end_v val))))"

definition bjGetBool :: "BjReader \<Rightarrow> BjValue \<Rightarrow> js_exception + bool" where
  "bjGetBool r val =
     (if type_v val \<noteq> BOOL then Inl (Error ''Value is not a boolean'')
      else Inr (substring (data r) (start val) (end_v val) = ''true''))"

definition bjIsNull :: "BjValue \<Rightarrow> bool" where
  "bjIsNull val \<longleftrightarrow> type_v val = NULL"

section \<open>Properties of \<^verbatim>\<open>bjDiscardUntil\<close>\<close>

declare bjDiscardUntil_loop.simps [simp del]

lemma bjDiscardUntil_loop_frame:
  "data (bjDiscardUntil_loop r d val) = data r \<and> end_r (bjDiscardUntil_loop r d val) = end_r r \<and>
   cur r \<le> cur (bjDiscardUntil_loop r d val) \<and>
   (cur r \<le> end_r r \<longrightarrow> cur (bjDiscardUntil_loop r d val) \<le> end_r r)"
proof (induction r d val rule: bjDiscardUntil_loop.induct)
  case (1 r d val)
  show ?case
  proof (cases "depth r \<noteq> d \<and> type_v val \<noteq> ERROR")
    case True
    obtain r' val' where rd: "bjRead r = (r', val')" by (cases "bjRead r")
    from True rd have eq: "bjDiscardUntil_loop r d val = bjDiscardUntil_loop r' d val'"
      by (simp add: bjDiscardUntil_loop.simps [of r])
    from "1.IH" [OF True rd [symmetric]] bjRead_frame [OF rd]
    show ?thesis unfolding eq by (auto simp: frame_def)
  next
    case False
    then have "bjDiscardUntil_loop r d val = r"
      by (subst bjDiscardUntil_loop.simps) auto
    then show ?thesis by simp
  qed
qed

lemma bjDiscardUntil_loop_exit:
  "type_v val = ERROR \<longrightarrow> truthy (error r) \<Longrightarrow>
   depth (bjDiscardUntil_loop r d val) = d \<or> truthy (error (bjDiscardUntil_loop r d val))"
proof (induction r d val rule: bjDiscardUntil_loop.induct)
  case (1 r d val)
  show ?case
  proof (cases "depth r \<noteq> d \<and> type_v val \<noteq> ERROR")
    case True
    obtain r' val' where rd: "bjRead r = (r', val')" by (cases "bjRead r")
    from True rd have eq: "bjDiscardUntil_loop r d val = bjDiscardUntil_loop r' d val'"
      by (simp add: bjDiscardUntil_loop.simps [of r])
    from bjRead_frame [OF rd] have "type_v val' = ERROR \<longrightarrow> truthy (error r')"
      by (simp add: frame_def)
    from "1.IH" [OF True rd [symmetric] this]
    show ?thesis unfolding eq .
  next
    case False
    then have "bjDiscardUntil_loop r d val = r"
      by (subst bjDiscardUntil_loop.simps) auto
    with False "1.prems" show ?thesis by auto
  qed
qed

lemma bjDiscardUntil_frame:
  "data (bjDiscardUntil r d) = data r \<and> end_r (bjDiscardUntil r d) = end_r r \<and>
   cur r \<le> cur (bjDiscardUntil r d) \<and>
   (cur r \<le> end_r r \<longrightarrow> cur (bjDiscardUntil r d) \<le> end_r r)"
  unfolding bjDiscardUntil_def by (rule bjDiscardUntil_loop_frame)

lemma bjDiscardUntil_exit:
  "depth (bjDiscardUntil r d) = d \<or> truthy (error (bjDiscardUntil r d))"
  unfolding bjDiscardUntil_def by (rule bjDiscardUntil_loop_exit) simp

lemma bjDiscardUntil_loop_error:
  "truthy (error r) \<Longrightarrow> bjDiscardUntil_loop r d val = r"
proof -
  assume t: "truthy (error r)"
  then have rd: "bjRead r = (r, errorValue r)"
    by (simp add: bjRead.simps [of r] bjRead_body_error)
  have e: "bjDiscardUntil_loop r d (errorValue r) = r"
    by (subst bjDiscardUntil_loop.simps) (simp add: errorValue_def)
  show ?thesis
    by (subst bjDiscardUntil_loop.simps) (simp add: rd e)
qed

lemma bjDiscardUntil_loop_val:
  assumes "type_v val = ERROR \<longrightarrow> truthy (error r)"
    and "type_v val' = ERROR \<longrightarrow> truthy (error r)"
  shows "bjDiscardUntil_loop r d val = bjDiscardUntil_loop r d val'"
proof (cases "truthy (error r)")
  case True
  then show ?thesis by (simp add: bjDiscardUntil_loop_error)
next
  case False
  with assms have "type_v val \<noteq> ERROR" "type_v val' \<noteq> ERROR" by auto
  then show ?thesis
    by (subst (1 2) bjDiscardUntil_loop.simps) simp
qed

lemma bjDiscardUntil_after_read:
  assumes "depth r \<noteq> d"
  shows "bjDiscardUntil (fst (bjRead r)) d = bjDiscardUntil r d"
proof -
  obtain r' v where rd: "bjRead r = (r', v)" by (cases "bjRead r")
  from bjRead_frame [OF rd] have e: "type_v v = ERROR \<longrightarrow> truthy (error r')"
    by (simp add: frame_def)
  have "bjDiscardUntil r d = bjDiscardUntil_loop r' d v"
    unfolding bjDiscardUntil_def using assms rd
    by (subst bjDiscardUntil_loop.simps) simp
  also have "\<dots> = bjDiscardUntil_loop r' d \<lparr>type_v = NULL, start = 0, end_v = 0, depth_v = 0\<rparr>"
    by (rule bjDiscardUntil_loop_val [OF e]) simp
  finally show ?thesis by (simp add: bjDiscardUntil_def rd)
qed

lemma bjDiscardUntil_idem:
  "bjDiscardUntil (bjDiscardUntil r d) d = bjDiscardUntil r d"
proof -
  from bjDiscardUntil_exit [of r d]
  show ?thesis
  proof
    assume "depth (bjDiscardUntil r d) = d"
    then show ?thesis
      by (subst bjDiscardUntil_def, subst bjDiscardUntil_loop.simps) simp
  next
    assume "truthy (error (bjDiscardUntil r d))"
    then show ?thesis
      by (subst bjDiscardUntil_def) (simp add: bjDiscardUntil_loop_error)
  qed
qed

section \<open>Depth underflow\<close>

text \<open>
  How a call of the scanner changes the depth, by the kind of the value it returns: a
  container-open token adds one (and carries the new depth), End subtracts one and
  leaves the depth non-negative, the scalars leave it alone. An Error Value leaves it
  alone as well, except when it reports a closing bracket met at a depth of zero or
  less: then the depth has been decremented all the same.
\<close>

definition depth_law :: "BjReader \<Rightarrow> BjReader \<Rightarrow> BjValue \<Rightarrow> bool" where
  "depth_law r r' v \<longleftrightarrow>
     (case type_v v of
        ARRAY \<Rightarrow> depth r' = depth r + 1 \<and> depth_v v = depth r'
      | OBJECT \<Rightarrow> depth r' = depth r + 1 \<and> depth_v v = depth r'
      | END \<Rightarrow> depth r' = depth r - 1 \<and> 0 \<le> depth r'
      | ERROR \<Rightarrow> depth r' = depth r \<or> (depth r \<le> 0 \<and> depth r' = depth r - 1)
      | _ \<Rightarrow> depth r' = depth r)"

lemma bjRead_body_depth:
  assumes "bjRead_body r = Return r' v"
  shows "depth_law r r' v"
proof (cases "truthy (error r)")
  case True
  with assms have "r' = r" "type_v v = ERROR"
    by (auto simp add: bjRead_body_error errorValue_def)
  then show ?thesis by (simp add: depth_law_def)
next
  case ne: False
  show ?thesis
  proof (cases "end_r r \<le> cur r")
    case True
    with ne assms have "depth r' = depth r" "type_v v = ERROR"
      by (auto simp add: bjRead_body_eof errorValue_def)
    then show ?thesis by (simp add: depth_law_def)
  next
    case False
    then have lt: "cur r < end_r r" by simp
    define c where "c = charAt (data r) (cur r)"
    define issep where "issep \<longleftrightarrow> c \<in> {Some (CHR '' ''), Some (CHR 0x0A), Some (CHR 0x0D),
        Some (CHR 0x09), Some (CHR '':''), Some (CHR '','')}"
    define isnum where "isnum \<longleftrightarrow> c \<in> {Some (CHR ''-''), Some (CHR ''0''), Some (CHR ''1''),
        Some (CHR ''2''), Some (CHR ''3''), Some (CHR ''4''), Some (CHR ''5''),
        Some (CHR ''6''), Some (CHR ''7''), Some (CHR ''8''), Some (CHR ''9'')}"
    define isstr where "isstr \<longleftrightarrow> c = Some (CHR 0x22)"
    define isopn where "isopn \<longleftrightarrow> c \<in> {Some (CHR ''{''), Some (CHR ''['')}"
    define iscls where "iscls \<longleftrightarrow> c \<in> {Some (CHR ''}''), Some (CHR '']'')}"
    define islit where "islit \<longleftrightarrow> c \<in> {Some (CHR ''n''), Some (CHR ''t''), Some (CHR ''f'')}"
    consider (sep) issep | (num) isnum | (str) isstr | (opn) isopn | (cls) iscls | (lit) islit
      | (other) "\<not> issep" "\<not> isnum" "\<not> isstr" "\<not> isopn" "\<not> iscls" "\<not> islit"
      by blast
    then show ?thesis
    proof cases
      case sep
      from bjRead_body_separator [OF ne lt sep [unfolded issep_def c_def]] assms
      show ?thesis by simp
    next
      case num
      from bjRead_body_number [OF ne lt num [unfolded isnum_def c_def]] assms
      have "r' = bjRead_number_loop r" "type_v v = NUMBER" by auto
      with number_loop_frame [of r]
      show ?thesis by (auto simp: depth_law_def)
    next
      case str
      obtain r2 closed where sl: "bjRead_string_loop (r\<lparr>cur := cur r + 1\<rparr>) = (r2, closed)"
        by (cases "bjRead_string_loop (r\<lparr>cur := cur r + 1\<rparr>)")
      from string_loop_frame [of "r\<lparr>cur := cur r + 1\<rparr>"] sl
      obtain k where k: "r2 = r\<lparr>cur := k\<rparr>" by auto
      from bjRead_body_string [OF ne lt str [unfolded isstr_def c_def]] assms sl k
      have "depth r' = depth r" "type_v v = STRING \<or> type_v v = ERROR"
        by (auto split: if_splits)
      then show ?thesis by (auto simp: depth_law_def)
    next
      case opn
      from bjRead_body_open [OF ne lt opn [unfolded isopn_def c_def]] assms
      have "depth r' = depth r + 1" "depth_v v = depth r + 1" "type_v v = OBJECT \<or> type_v v = ARRAY"
        by auto
      then show ?thesis by (auto simp: depth_law_def)
    next
      case cls
      from bjRead_body_close [OF ne lt cls [unfolded iscls_def c_def]] assms
      have "(type_v v = ERROR \<and> depth r \<le> 0 \<and> depth r' = depth r - 1)
          \<or> (type_v v = END \<and> depth r' = depth r - 1 \<and> 0 \<le> depth r')"
        by (auto split: if_splits)
      then show ?thesis by (auto simp: depth_law_def)
    next
      case lit
      from bjRead_body_literal [OF ne lt lit [unfolded islit_def c_def]] assms
      have "depth r' = depth r" "type_v v \<in> {NULL, BOOL, ERROR}"
        by (auto simp: unknownToken_def errorValue_def Let_def split: if_splits)
      then show ?thesis by (auto simp: depth_law_def)
    next
      case other
      from bjRead_body_other [OF ne lt c_def other [unfolded issep_def isnum_def isstr_def isopn_def iscls_def islit_def]] assms
      have "depth r' = depth r" "type_v v = ERROR"
        by (auto simp: unknownToken_def errorValue_def Let_def)
      then show ?thesis by (auto simp: depth_law_def)
    qed
  qed
qed

lemma bjRead_depth: "bjRead r = (r', v) \<Longrightarrow> depth_law r r' v"
proof (induction r rule: bjRead.induct)
  case (1 r)
  show ?case
  proof (cases "bjRead_body r")
    case (Return r1 v1)
    with "1.prems" have "r' = r1" "v = v1" by (simp_all add: bjRead.simps [of r])
    with Return show ?thesis by (simp add: bjRead_body_depth)
  next
    case (Continue r1)
    with "1.prems" have "bjRead r1 = (r', v)" by (simp add: bjRead.simps [of r])
    from "1.IH" [OF Continue this] bjRead_body_Continue [OF Continue]
    show ?thesis by (simp add: depth_law_def split: BjType.splits)
  qed
qed

text \<open>
  Claim C1 says that a closing bracket at depth 0 leaves the reader's depth at 0. The
  test \<^verbatim>\<open>if (--r.depth < 0)\<close> has already decremented the field when it fails, and the
  error branch does not put it back: on the inputs \<^verbatim>\<open>}\<close> and \<^verbatim>\<open>]\<close> the reader is left with
  depth \<open>-1\<close> and the message naming the bracket. The Error Value of that call reports
  \<^verbatim>\<open>r.depth + 1\<close>, that is 0, while the Error Value of the next call reports depth \<open>-1\<close>.
\<close>

theorem bjRead_stray_close_depth:
  "bjRead (bjReader ''}'') =
     (\<lparr>data = ''}'', cur = 0, end_r = 1, depth = - 1,
       error = Some (''stray '' @ [CHR 0x27, CHR ''}'', CHR 0x27])\<rparr>,
      \<lparr>type_v = ERROR, start = 0, end_v = 1, depth_v = 0\<rparr>)
   \<and> bjRead (bjReader '']'') =
     (\<lparr>data = '']'', cur = 0, end_r = 1, depth = - 1,
       error = Some (''stray '' @ [CHR 0x27, CHR '']'', CHR 0x27])\<rparr>,
      \<lparr>type_v = ERROR, start = 0, end_v = 1, depth_v = 0\<rparr>)
   \<and> snd (bjRead (fst (bjRead (bjReader ''}'')))) =
      \<lparr>type_v = ERROR, start = 0, end_v = 0, depth_v = - 1\<rparr>"
  by code_simp

section \<open>Sticky errors\<close>

text \<open>
  Claim C2. Once the reader's error is set (it passes the test \<^verbatim>\<open>if (r.error)\<close>, as every
  message the code records does), a call of \<^verbatim>\<open>bjRead\<close> returns the Error Value
  \<^verbatim>\<open>{ERROR, cur, cur, depth}\<close> and leaves the reader as it was: the cursor, the depth and
  the stored message are unchanged, so every later call returns that same value again.
  \<^verbatim>\<open>bjDiscardUntil\<close> and the steps of both iterators leave such a reader unchanged too, and
  the steps report done; in particular the object iterator does not replace the message
  by its own.
\<close>

theorem bjRead_sticky_error:
  assumes "truthy (error r)"
  shows "bjRead r = (r, \<lparr>type_v = ERROR, start = cur r, end_v = cur r, depth_v = depth r\<rparr>)
     \<and> bjRead (fst (bjRead r)) = bjRead r
     \<and> bjDiscardUntil r d = r
     \<and> bjIterArray r c = (r, \<lparr>done_a = True, value_a = None\<rparr>)
     \<and> bjIterObject r c = (r, \<lparr>done_o = True, key_o = None, value_o = None\<rparr>)"
proof -
  have rd: "bjRead r = (r, errorValue r)"
    using assms by (simp add: bjRead.simps [of r] bjRead_body_error)
  have di: "bjDiscardUntil r (depth_v c) = r" "bjDiscardUntil r d = r"
    using assms by (simp_all add: bjDiscardUntil_def bjDiscardUntil_loop_error)
  have "bjIterArray r c = (r, \<lparr>done_a = True, value_a = None\<rparr>)"
    by (simp add: bjIterArray_def di rd errorValue_def)
  moreover have "bjIterObject r c = (r, \<lparr>done_o = True, key_o = None, value_o = None\<rparr>)"
    by (simp add: bjIterObject_def di rd errorValue_def)
  ultimately show ?thesis using rd di by (simp add: errorValue_def)
qed

text \<open>
  The text \<^verbatim>\<open>"abc\<close>: the first scan stores \<^verbatim>\<open>unclosed string\<close> and returns an Error Value
  spanning the text; every scan after it returns the Error Value at the cursor and
  changes nothing.
\<close>

theorem bjRead_sticky_error_witness:
  \<open>bjRead (bjReader ''"abc'') =
      (\<lparr>data = ''"abc'', cur = 4, end_r = 4, depth = 0, error = Some ''unclosed string''\<rparr>,
       \<lparr>type_v = ERROR, start = 0, end_v = 4, depth_v = 0\<rparr>)
   \<and> truthy (error \<lparr>data = ''"abc'', cur = 4, end_r = 4, depth = 0,
                     error = Some ''unclosed string''\<rparr>)
   \<and> bjRead \<lparr>data = ''"abc'', cur = 4, end_r = 4, depth = 0, error = Some ''unclosed string''\<rparr>
     = (\<lparr>data = ''"abc'', cur = 4, end_r = 4, depth = 0, error = Some ''unclosed string''\<rparr>,
        \<lparr>type_v = ERROR, start = 4, end_v = 4, depth_v = 0\<rparr>)\<close>
  using bjRead_sticky_error
    [where r = \<open>\<lparr>data = ''"abc'', cur = 4, end_r = 4, depth = 0,
                  error = Some ''unclosed string''\<rparr>\<close> and d = 0
       and c = \<open>\<lparr>type_v = ARRAY, start = 0, end_v = 1, depth_v = 1\<rparr>\<close>]
  by code_simp

section \<open>Steps of the object iterator\<close>

text \<open>
  Claim C3, as stated, lets the iterator yield the pair whenever the key slot holds a
  token and the value slot does not hold End. On the truncated input \<^verbatim>\<open>{"a"\<close> the key
  slot holds the String \<^verbatim>\<open>a\<close> and the value slot holds an Error Value (unexpected eof),
  which is not End; the iterator reports done and yields no pair.
\<close>

theorem bjIterObject_value_error_counterexample:
  \<open>bjRead (bjReader ''{"a"'') =
      (\<lparr>data = ''{"a"'', cur = 1, end_r = 4, depth = 1, error = None\<rparr>,
       \<lparr>type_v = OBJECT, start = 0, end_v = 1, depth_v = 1\<rparr>)
   \<and> type_v (snd (bjRead (bjDiscardUntil
          \<lparr>data = ''{"a"'', cur = 1, end_r = 4, depth = 1, error = None\<rparr> 1))) = STRING
   \<and> type_v (snd (bjRead (fst (bjRead (bjDiscardUntil
          \<lparr>data = ''{"a"'', cur = 1, end_r = 4, depth = 1, error = None\<rparr> 1))))) = ERROR
   \<and> snd (bjIterObject \<lparr>data = ''{"a"'', cur = 1, end_r = 4, depth = 1, error = None\<rparr>
          \<lparr>type_v = OBJECT, start = 0, end_v = 1, depth_v = 1\<rparr>)
       = \<lparr>done_o = True, key_o = None, value_o = None\<rparr>\<close>
  by code_simp

text \<open>
  Claim C3, amended. With \<open>key\<close> the scan of the key slot (after discarding to the
  object's depth) and \<open>val\<close> the scan that follows it: if \<open>key\<close> is End or Error the step
  reports done and the reader is as the key scan left it (the iterator sets no error of
  its own); if \<open>key\<close> is a token and \<open>val\<close> is End the step stores the error
  \<^verbatim>\<open>unexpected object end\<close> and reports done; if \<open>key\<close> is a token and \<open>val\<close> is Error the
  step reports done, the reader as the value scan left it; otherwise the step yields
  \<open>(key, val)\<close>. The Kind of \<open>key\<close> is not examined beyond End and Error: a Number key
  is yielded like a String key.
\<close>

theorem bjIterObject_step:
  assumes "bjRead (bjDiscardUntil r (depth_v obj)) = (r2, key)"
    and "bjRead r2 = (r3, val)"
  shows "(type_v key \<in> {ERROR, END} \<longrightarrow>
            bjIterObject r obj = (r2, \<lparr>done_o = True, key_o = None, value_o = None\<rparr>))
     \<and> (type_v key \<notin> {ERROR, END} \<and> type_v val = END \<longrightarrow>
            bjIterObject r obj = (r3\<lparr>error := Some ''unexpected object end''\<rparr>,
                                  \<lparr>done_o = True, key_o = None, value_o = None\<rparr>))
     \<and> (type_v key \<notin> {ERROR, END} \<and> type_v val = ERROR \<longrightarrow>
            bjIterObject r obj = (r3, \<lparr>done_o = True, key_o = None, value_o = None\<rparr>))
     \<and> (type_v key \<notin> {ERROR, END} \<and> type_v val \<notin> {ERROR, END} \<longrightarrow>
            bjIterObject r obj = (r3, \<lparr>done_o = False, key_o = Some key, value_o = Some val\<rparr>))"
  using assms by (simp add: bjIterObject_def Let_def)

theorem bjIterObject_step_witness:
  \<open>type_v (snd (bjRead (bjDiscardUntil (fst (bjRead (bjReader ''{}''))) 1))) \<in> {ERROR, END}
   \<and> bjIterObject (fst (bjRead (bjReader ''{}''))) (snd (bjRead (bjReader ''{}'')))
       = (\<lparr>data = ''{}'', cur = 2, end_r = 2, depth = 0, error = None\<rparr>,
          \<lparr>done_o = True, key_o = None, value_o = None\<rparr>)
   \<and> type_v (snd (bjRead (fst (bjRead (bjDiscardUntil
          (fst (bjRead (bjReader ''{"a"}''))) 1))))) = END
   \<and> bjIterObject (fst (bjRead (bjReader ''{"a"}''))) (snd (bjRead (bjReader ''{"a"}'')))
       = (\<lparr>data = ''{"a"}'', cur = 5, end_r = 5, depth = 0,
           error = Some ''unexpected object end''\<rparr>,
          \<lparr>done_o = True, key_o = None, value_o = None\<rparr>)
   \<and> type_v (snd (bjRead (fst (bjRead (bjDiscardUntil
          (fst (bjRead (bjReader ''{"a"''))) 1))))) = ERROR
   \<and> bjIterObject (fst (bjRead (bjReader ''{"a"''))) (snd (bjRead (bjReader ''{"a"'')))
       = (\<lparr>data = ''{"a"'', cur = 4, end_r = 4, depth = 1, error = Some ''unexpected eof''\<rparr>,
          \<lparr>done_o = True, key_o = None, value_o = None\<rparr>)
   \<and> bjIterObject (fst (bjRead (bjReader ''{1: 2}''))) (snd (bjRead (bjReader ''{1: 2}'')))
       = (\<lparr>data = ''{1: 2}'', cur = 5, end_r = 6, depth = 1, error = None\<rparr>,
          \<lparr>done_o = False,
           key_o = Some \<lparr>type_v = NUMBER, start = 1, end_v = 2, depth_v = 1\<rparr>,
           value_o = Some \<lparr>type_v = NUMBER, start = 4, end_v = 5, depth_v = 1\<rparr>\<rparr>)\<close>
  using
    bjIterObject_step [OF surjective_pairing surjective_pairing,
      where r = \<open>fst (bjRead (bjReader ''{}''))\<close> and obj = \<open>snd (bjRead (bjReader ''{}''))\<close>]
    bjIterObject_step [OF surjective_pairing surjective_pairing,
      where r = \<open>fst (bjRead (bjReader ''{"a"}''))\<close>
        and obj = \<open>snd (bjRead (bjReader ''{"a"}''))\<close>]
    bjIterObject_step [OF surjective_pairing surjective_pairing,
      where r = \<open>fst (bjRead (bjReader ''{"a"''))\<close>
        and obj = \<open>snd (bjRead (bjReader ''{"a"''))\<close>]
    bjIterObject_step [OF surjective_pairing surjective_pairing,
      where r = \<open>fst (bjRead (bjReader ''{1: 2}''))\<close>
        and obj = \<open>snd (bjRead (bjReader ''{1: 2}''))\<close>]
  by code_simp

section \<open>Abandoning a nested container\<close>

text \<open>
  The caller of the iterators: \<open>scans n r\<close> is the reader after the caller has scanned
  \<open>n\<close> tokens with \<^verbatim>\<open>bjRead\<close>, dropping the values.
\<close>

fun scans :: "nat \<Rightarrow> BjReader \<Rightarrow> BjReader" where
  "scans 0 r = r"
| "scans (Suc n) r = scans n (fst (bjRead r))"

lemma bjDiscardUntil_after_scans:
  "list_all (\<lambda>k. depth (scans k r) \<noteq> d) [0..<n] \<Longrightarrow>
     bjDiscardUntil (scans n r) d = bjDiscardUntil r d"
proof (induction n arbitrary: r)
  case 0
  show ?case by simp
next
  case (Suc n)
  from Suc.prems have all: "\<forall>k<Suc n. depth (scans k r) \<noteq> d"
    by (auto simp add: list_all_iff less_Suc_eq)
  then have d0: "depth r \<noteq> d" by (metis scans.simps(1) zero_less_Suc)
  from all have "\<forall>k<n. depth (scans k (fst (bjRead r))) \<noteq> d"
    by (metis Suc_less_eq scans.simps(2))
  then have "list_all (\<lambda>k. depth (scans k (fst (bjRead r))) \<noteq> d) [0..<n]"
    by (simp add: list_all_iff)
  from Suc.IH [OF this] bjDiscardUntil_after_read [OF d0]
  show ?case by simp
qed

text \<open>
  What \<^verbatim>\<open>bjDiscardUntil\<close> does to the reader, and so what a step of an array iterator
  does to it, is a number of such scans; consuming a nested array through its own
  iterator is covered by \<open>scans\<close>.
\<close>

lemma scans_Suc_right: "scans (Suc k) r = fst (bjRead (scans k r))"
  by (induction k arbitrary: r) simp_all

lemma bjDiscardUntil_loop_scans: "\<exists>k. bjDiscardUntil_loop r d val = scans k r"
proof (induction r d val rule: bjDiscardUntil_loop.induct)
  case (1 r d val)
  show ?case
  proof (cases "depth r \<noteq> d \<and> type_v val \<noteq> ERROR")
    case True
    obtain r' val' where rd: "bjRead r = (r', val')" by (cases "bjRead r")
    from True rd have eq: "bjDiscardUntil_loop r d val = bjDiscardUntil_loop r' d val'"
      by (simp add: bjDiscardUntil_loop.simps [of r])
    from "1.IH" [OF True rd [symmetric]]
    obtain k where "bjDiscardUntil_loop r' d val' = scans k r'" by blast
    with eq rd have "bjDiscardUntil_loop r d val = scans (Suc k) r" by simp
    then show ?thesis ..
  next
    case False
    then have "bjDiscardUntil_loop r d val = scans 0 r"
      by (subst bjDiscardUntil_loop.simps) auto
    then show ?thesis ..
  qed
qed

lemma bjIterArray_scans: "\<exists>k. fst (bjIterArray r c) = scans k r"
proof -
  from bjDiscardUntil_loop_scans
  obtain k where k: "bjDiscardUntil r (depth_v c) = scans k r"
    unfolding bjDiscardUntil_def by blast
  have "fst (bjIterArray r c) = fst (bjRead (bjDiscardUntil r (depth_v c)))"
    by (simp add: bjIterArray_def Let_def split: prod.splits)
  with k have "fst (bjIterArray r c) = scans (Suc k) r"
    by (simp only: scans_Suc_right)
  then show ?thesis ..
qed

text \<open>
  Well-formed input, as the scanner meets it. A value is a number, a string, one of the
  three literals, or a container: an opening bracket, items, and the matching closing
  bracket. The items of an object are its keys and values in turn, those of an array
  its elements. Each item comes after its padding, a run of the characters the scanner
  passes over (blank, line feed, carriage return, tab, comma, colon), and more padding
  may stand before the closing bracket. \<open>JContainer True\<close> is written with braces,
  \<open>JContainer False\<close> with square brackets.
\<close>

datatype json =
    JNumber string
  | JString string
  | JLiteral string
  | JContainer bool "(string \<times> json) list" string

text \<open>
  The characters between the quotes of a string: none of them is a quote, unless a
  backslash stands before it, and no backslash is the last character.
\<close>

fun string_body :: "string \<Rightarrow> bool" where
  "string_body [] = True"
| "string_body (c # cs) =
     (if c = CHR 0x22 then False
      else if c = CHR 0x5C then (case cs of [] \<Rightarrow> False | _ # cs' \<Rightarrow> string_body cs')
      else string_body cs)"

definition padding :: "string \<Rightarrow> bool" where
  "padding p \<longleftrightarrow> set p \<subseteq> {CHR '' '', CHR 0x0A, CHR 0x0D, CHR 0x09, CHR '':'', CHR '',''}"

text \<open>The text of a value.\<close>

fun render :: "json \<Rightarrow> string" where
  "render (JNumber w) = w"
| "render (JString b) = CHR 0x22 # b @ [CHR 0x22]"
| "render (JLiteral l) = l"
| "render (JContainer obj items p) =
     (if obj then CHR ''{'' else CHR ''['') #
     concat (map (\<lambda>x. fst x @ render (snd x)) items) @ p @
     [if obj then CHR ''}'' else CHR '']'']"

text \<open>
  A number is a non-empty run of the characters \<^verbatim>\<open>0123456789eE.+-\<close> that starts with a digit
  or \<^verbatim>\<open>-\<close>; a literal is \<^verbatim>\<open>null\<close>, \<^verbatim>\<open>true\<close> or \<^verbatim>\<open>false\<close>; in a container every item but the
  first comes after at least one padding character (the comma or colon). Every JSON
  text of RFC 8259 is the text of such a value; the converse is not required, which
  only widens what the theorem below covers.
\<close>

fun well_formed :: "json \<Rightarrow> bool" where
  "well_formed (JNumber w) =
     (w \<noteq> [] \<and> hd w \<in> set ''-0123456789'' \<and> set w \<subseteq> set ''0123456789eE.+-'')"
| "well_formed (JString b) = string_body b"
| "well_formed (JLiteral l) = (l \<in> {''null'', ''true'', ''false''})"
| "well_formed (JContainer obj items p) =
     ((\<forall>x \<in> set items. padding (fst x) \<and> well_formed (snd x)) \<and>
      (\<forall>x \<in> set (tl items). fst x \<noteq> []) \<and> padding p)"

text \<open>
  The number of tokens of a value, its closing bracket included; the value its first
  token is scanned as, at a position and a depth; the reader after that first token.
\<close>

fun tokens :: "json \<Rightarrow> nat" where
  "tokens (JContainer obj items p) = 2 + sum_list (map (\<lambda>x. tokens (snd x)) items)"
| "tokens _ = 1"

fun first_token :: "json \<Rightarrow> int \<Rightarrow> int \<Rightarrow> BjValue" where
  "first_token (JNumber w) pos d =
     \<lparr>type_v = NUMBER, start = pos, end_v = pos + int (length w), depth_v = d\<rparr>"
| "first_token (JString b) pos d =
     \<lparr>type_v = STRING, start = pos + 1, end_v = pos + 1 + int (length b), depth_v = d\<rparr>"
| "first_token (JLiteral l) pos d =
     \<lparr>type_v = (if l = ''null'' then NULL else BOOL), start = pos,
      end_v = pos + int (length l), depth_v = d\<rparr>"
| "first_token (JContainer obj items p) pos d =
     \<lparr>type_v = (if obj then OBJECT else ARRAY), start = pos, end_v = pos + 1, depth_v = d + 1\<rparr>"

fun after_first_token :: "json \<Rightarrow> BjReader \<Rightarrow> BjReader" where
  "after_first_token (JContainer obj items p) r = r\<lparr>cur := cur r + 1, depth := depth r + 1\<rparr>"
| "after_first_token v r = r\<lparr>cur := cur r + int (length (render v))\<rparr>"

text \<open>
  \<open>at r pre rest\<close>: the reader \<open>r\<close> has no error, its buffer is \<open>pre @ rest\<close> up to its end,
  and its cursor stands between the two.
\<close>

definition at :: "BjReader \<Rightarrow> string \<Rightarrow> string \<Rightarrow> bool" where
  "at r pre rest \<longleftrightarrow> data r = pre @ rest \<and> cur r = int (length pre) \<and>
     end_r r = int (length (data r)) \<and> \<not> truthy (error r)"

text \<open>
  A number is delimited by what follows it: the end of the input or a character that
  cannot continue a number. Other values need no delimiter.
\<close>

fun delimited :: "json \<Rightarrow> string \<Rightarrow> bool" where
  "delimited (JNumber w) post = (post = [] \<or> hd post \<notin> set ''0123456789eE.+-'')"
| "delimited _ post = True"

text \<open>
  What scanning a value means: wherever its text stands in the buffer, the first scan
  returns its first token, \<open>tokens v\<close> scans leave the reader just after the text with
  the depth it had, and in between the depth is greater.
\<close>

definition scanned_whole :: "json \<Rightarrow> bool" where
  "scanned_whole v \<longleftrightarrow>
     (\<forall>r pre post. at r pre (render v @ post) \<longrightarrow> 0 \<le> depth r \<longrightarrow> delimited v post \<longrightarrow>
        bjRead r = (after_first_token v r, first_token v (int (length pre)) (depth r)) \<and>
        scans (tokens v) r = r\<lparr>cur := int (length (pre @ render v))\<rparr> \<and>
        (\<forall>n. 0 < n \<and> n < tokens v \<longrightarrow> depth r < depth (scans n r)))"

lemma charAt_append: "charAt (pre @ c # rest) (int (length pre)) = Some c"
  by (simp add: charAt_def)

lemma at_head: "at r pre (c # rest) \<Longrightarrow> charAt (data r) (cur r) = Some c \<and> cur r < end_r r"
  by (simp add: at_def charAt_def)

lemma at_step: "at r pre (x @ rest) \<Longrightarrow> at (r\<lparr>cur := int (length (pre @ x))\<rparr>) (pre @ x) rest"
  by (simp add: at_def)

lemma at_step1: "at r pre (c # rest) \<Longrightarrow> at (r\<lparr>cur := cur r + 1\<rparr>) (pre @ [c]) rest"
  by (simp add: at_def)

lemma skip_padding:
  "padding p \<Longrightarrow> at r pre (p @ rest) \<Longrightarrow> bjRead r = bjRead (r\<lparr>cur := int (length (pre @ p))\<rparr>)"
proof (induction p arbitrary: r pre)
  case Nil
  then have "r\<lparr>cur := int (length (pre @ []))\<rparr> = r" by (simp add: at_def)
  then show ?case by simp
next
  case (Cons c p)
  from Cons.prems(2) have a: "at r pre (c # (p @ rest))" by simp
  from at_head [OF a] have h: "charAt (data r) (cur r) = Some c" "cur r < end_r r" by simp_all
  from a have ne: "\<not> truthy (error r)" by (simp add: at_def)
  from Cons.prems(1) have c: "c \<in> {CHR '' '', CHR 0x0A, CHR 0x0D, CHR 0x09, CHR '':'', CHR '',''}"
    and p: "padding p" by (simp_all add: padding_def)
  from h(1) c
  have m: "charAt (data r) (cur r) \<in> {Some (CHR '' ''), Some (CHR 0x0A), Some (CHR 0x0D),
        Some (CHR 0x09), Some (CHR '':''), Some (CHR '','')}" by auto
  have "bjRead r = bjRead (r\<lparr>cur := cur r + 1\<rparr>)"
    by (rule bjRead_skip_separator [OF ne h(2) m])
  also have "\<dots> = bjRead (r\<lparr>cur := cur r + 1\<rparr>\<lparr>cur := int (length ((pre @ [c]) @ p))\<rparr>)"
    by (rule Cons.IH [OF p]) (use at_step1 [OF a] in simp)
  finally show ?case by simp
qed

lemma number_loop_run:
  "data r = pre @ w @ post \<Longrightarrow> cur r = int (length pre) \<Longrightarrow> end_r r = int (length (data r)) \<Longrightarrow>
   \<forall>c \<in> set w. isNumberCont (Some c) \<Longrightarrow>
   post = [] \<or> \<not> isNumberCont (Some (hd post)) \<Longrightarrow>
   bjRead_number_loop r = r\<lparr>cur := int (length (pre @ w))\<rparr>"
proof (induction w arbitrary: r pre)
  case Nil
  have "\<not> (cur r < end_r r \<and> isNumberCont (charAt (data r) (cur r)))"
  proof (cases post)
    case Nil
    with Nil.prems show ?thesis by simp
  next
    case (Cons c post')
    with Nil.prems have "charAt (data r) (cur r) = Some c" by (simp add: charAt_def)
    with Nil.prems Cons show ?thesis by simp
  qed
  then have "bjRead_number_loop r = r" by (subst bjRead_number_loop.simps) auto
  with Nil.prems show ?case by simp
next
  case (Cons c w)
  from Cons.prems have h: "charAt (data r) (cur r) = Some c" "cur r < end_r r"
    by (simp_all add: charAt_def)
  with Cons.prems have "bjRead_number_loop r = bjRead_number_loop (r\<lparr>cur := cur r + 1\<rparr>)"
    by (subst bjRead_number_loop.simps) simp
  also have "\<dots> = r\<lparr>cur := cur r + 1\<rparr>\<lparr>cur := int (length ((pre @ [c]) @ w))\<rparr>"
    by (rule Cons.IH) (use Cons.prems in simp_all)
  finally show ?case by simp
qed

lemma scan_number:
  assumes "at r pre (w @ post)" and "well_formed (JNumber w)"
    and "post = [] \<or> hd post \<notin> set ''0123456789eE.+-''"
  shows "bjRead r = (r\<lparr>cur := int (length (pre @ w))\<rparr>,
                     \<lparr>type_v = NUMBER, start = int (length pre), end_v = int (length (pre @ w)),
                      depth_v = depth r\<rparr>)"
proof -
  from assms(2) obtain c w' where w: "w = c # w'" and c: "c \<in> set ''-0123456789''"
    and all: "set w \<subseteq> set ''0123456789eE.+-''"
    by (cases w) simp_all
  from assms(1) w have a: "at r pre (c # (w' @ post))" by simp
  from at_head [OF a] have h: "charAt (data r) (cur r) = Some c" "cur r < end_r r" by simp_all
  from assms(1) have ne: "\<not> truthy (error r)" and d: "data r = pre @ w @ post"
    "cur r = int (length pre)" "end_r r = int (length (data r))"
    by (simp_all add: at_def)
  from h(1) c
  have m: "charAt (data r) (cur r) \<in> {Some (CHR ''-''), Some (CHR ''0''), Some (CHR ''1''),
        Some (CHR ''2''), Some (CHR ''3''), Some (CHR ''4''), Some (CHR ''5''),
        Some (CHR ''6''), Some (CHR ''7''), Some (CHR ''8''), Some (CHR ''9'')}"
    by simp
  from all have 1: "\<forall>c \<in> set w. isNumberCont (Some c)"
    unfolding isNumberCont_set by blast
  from assms(3) have 2: "post = [] \<or> \<not> isNumberCont (Some (hd post))"
    unfolding isNumberCont_set by blast
  from number_loop_run [OF d 1 2] d(2)
  show ?thesis
    by (simp add: bjRead.simps [of r] bjRead_body_number [OF ne h(2) m])
qed

lemma string_loop_run:
  "string_body b \<Longrightarrow> data r = pre @ b @ CHR 0x22 # post \<Longrightarrow> cur r = int (length pre) \<Longrightarrow>
   end_r r = int (length (data r)) \<Longrightarrow>
   bjRead_string_loop r = (r\<lparr>cur := int (length (pre @ b))\<rparr>, True)"
proof (induction b arbitrary: r pre rule: string_body.induct)
  case 1
  then have "charAt (data r) (cur r) = Some (CHR 0x22)" "cur r < end_r r"
    by (simp_all add: charAt_def)
  then have "bjRead_string_loop r = (r, True)"
    by (subst bjRead_string_loop.simps) simp
  with "1.prems" show ?case by simp
next
  case (2 c cs)
  from "2.prems" have h: "charAt (data r) (cur r) = Some c" "cur r < end_r r"
    by (simp_all add: charAt_def)
  from "2.prems"(1) have nq: "c \<noteq> CHR 0x22" by (simp split: if_splits)
  show ?case
  proof (cases "c = CHR 0x5C")
    case True
    with "2.prems"(1) nq obtain x cs' where cs: "cs = x # cs'" and sb: "string_body cs'"
      by (cases cs) simp_all
    from "2.prems" cs have lt: "cur r + 1 < end_r r" by simp
    from h nq True lt
    have "bjRead_string_loop r = bjRead_string_loop (r\<lparr>cur := cur r + 2\<rparr>)"
      by (subst bjRead_string_loop.simps) (simp add: Let_def add.commute)
    also have "\<dots> = (r\<lparr>cur := cur r + 2\<rparr>\<lparr>cur := int (length ((pre @ [c, x]) @ cs'))\<rparr>, True)"
      by (rule "2.IH"(1) [OF nq True cs sb]) (use "2.prems" cs in simp_all)
    finally show ?thesis using cs by simp
  next
    case False
    with "2.prems"(1) nq have sb: "string_body cs" by simp
    from h nq False
    have "bjRead_string_loop r = bjRead_string_loop (r\<lparr>cur := cur r + 1\<rparr>)"
      by (subst bjRead_string_loop.simps) (simp add: Let_def)
    also have "\<dots> = (r\<lparr>cur := cur r + 1\<rparr>\<lparr>cur := int (length ((pre @ [c]) @ cs))\<rparr>, True)"
      by (rule "2.IH"(2) [OF nq False sb]) (use "2.prems" in simp_all)
    finally show ?thesis by simp
  qed
qed

lemma scan_string:
  assumes "at r pre (CHR 0x22 # b @ CHR 0x22 # post)" and "string_body b"
  shows "bjRead r = (r\<lparr>cur := int (length (pre @ CHR 0x22 # b @ [CHR 0x22]))\<rparr>,
                     \<lparr>type_v = STRING, start = int (length pre) + 1,
                      end_v = int (length pre) + 1 + int (length b), depth_v = depth r\<rparr>)"
proof -
  from at_head [OF assms(1)]
  have h: "charAt (data r) (cur r) = Some (CHR 0x22)" "cur r < end_r r" by simp_all
  from assms(1) have ne: "\<not> truthy (error r)" and d: "data r = pre @ CHR 0x22 # b @ CHR 0x22 # post"
    "cur r = int (length pre)" "end_r r = int (length (data r))"
    by (simp_all add: at_def)
  have "bjRead_string_loop (r\<lparr>cur := cur r + 1\<rparr>)
      = (r\<lparr>cur := cur r + 1\<rparr>\<lparr>cur := int (length ((pre @ [CHR 0x22]) @ b))\<rparr>, True)"
    by (rule string_loop_run [OF assms(2)]) (use d in simp_all)
  with d(2) show ?thesis
    by (simp add: bjRead.simps [of r] bjRead_body_string [OF ne h(2) h(1)])
qed

lemma isString_loop_match:
  "\<forall>j < length expect. c + int j < e \<and> charAt d (c + int j) = Some (expect ! j) \<Longrightarrow>
     isString_loop d c e expect i"
proof (induction d c e expect i rule: isString_loop.induct)
  case (1 d c e expect i)
  show ?case
  proof (cases "i < length expect")
    case True
    with "1.prems" have ok: "\<not> (e \<le> c + int i \<or> charAt d (c + int i) \<noteq> Some (expect ! i))"
      by auto
    from "1.IH" [OF True ok "1.prems"] True ok show ?thesis
      by (subst isString_loop.simps) simp
  next
    case False
    then show ?thesis by (subst isString_loop.simps) simp
  qed
qed

lemma isString_match:
  assumes "at r pre (l @ post)"
  shows "isString (data r) (cur r) (end_r r) l"
  unfolding isString_def
proof (rule isString_loop_match, intro allI impI)
  fix j assume j: "j < length l"
  from assms have d: "data r = pre @ l @ post" "cur r = int (length pre)"
    "end_r r = int (length (data r))" by (simp_all add: at_def)
  from j d show "cur r + int j < end_r r \<and> charAt (data r) (cur r + int j) = Some (l ! j)"
    by (simp add: charAt_def nth_append nat_add_distrib)
qed

lemma isString_mismatch:
  "charAt d c = Some x \<Longrightarrow> x \<noteq> y \<Longrightarrow> \<not> isString d c e (y # ys)"
  unfolding isString_def by (subst isString_loop.simps) simp

lemma scan_literal:
  assumes "at r pre (l @ post)" and "l \<in> {''null'', ''true'', ''false''}"
  shows "bjRead r = (r\<lparr>cur := int (length (pre @ l))\<rparr>,
                     \<lparr>type_v = (if l = ''null'' then NULL else BOOL), start = int (length pre),
                      end_v = int (length (pre @ l)), depth_v = depth r\<rparr>)"
proof -
  from assms(1) have ne: "\<not> truthy (error r)" and d: "cur r = int (length pre)"
    by (simp_all add: at_def)
  note ok = isString_match [OF assms(1)]
  from assms(2) consider (n) "l = ''null''" | (t) "l = ''true''" | (f) "l = ''false''" by blast
  then show ?thesis
  proof cases
    case n
    with assms(1) have a: "at r pre (CHR ''n'' # (''ull'' @ post))" by simp
    from at_head [OF a] have h: "charAt (data r) (cur r) = Some (CHR ''n'')" "cur r < end_r r"
      by simp_all
    then have m: "charAt (data r) (cur r) \<in> {Some (CHR ''n''), Some (CHR ''t''), Some (CHR ''f'')}"
      by simp
    from ok n have "isString (data r) (cur r) (end_r r) ''null''" by simp
    with h(1) d n show ?thesis
      by (simp add: bjRead.simps [of r] bjRead_body_literal [OF ne h(2) m] Let_def)
  next
    case t
    with assms(1) have a: "at r pre (CHR ''t'' # (''rue'' @ post))" by simp
    from at_head [OF a] have h: "charAt (data r) (cur r) = Some (CHR ''t'')" "cur r < end_r r"
      by simp_all
    then have m: "charAt (data r) (cur r) \<in> {Some (CHR ''n''), Some (CHR ''t''), Some (CHR ''f'')}"
      by simp
    from ok t have y: "isString (data r) (cur r) (end_r r) ''true''" by simp
    have x: "\<not> isString (data r) (cur r) (end_r r) ''null''"
      by (rule isString_mismatch [OF h(1)]) simp
    from x y h(1) d t show ?thesis
      by (simp add: bjRead.simps [of r] bjRead_body_literal [OF ne h(2) m] Let_def)
  next
    case f
    with assms(1) have a: "at r pre (CHR ''f'' # (''alse'' @ post))" by simp
    from at_head [OF a] have h: "charAt (data r) (cur r) = Some (CHR ''f'')" "cur r < end_r r"
      by simp_all
    then have m: "charAt (data r) (cur r) \<in> {Some (CHR ''n''), Some (CHR ''t''), Some (CHR ''f'')}"
      by simp
    from ok f have y: "isString (data r) (cur r) (end_r r) ''false''" by simp
    have x: "\<not> isString (data r) (cur r) (end_r r) ''null''"
      "\<not> isString (data r) (cur r) (end_r r) ''true''"
      by (rule isString_mismatch [OF h(1)], simp)+
    from x y h(1) d f show ?thesis
      by (simp add: bjRead.simps [of r] bjRead_body_literal [OF ne h(2) m] Let_def)
  qed
qed

lemma scan_open:
  assumes "at r pre (c # rest)" and "c = (if obj then CHR ''{'' else CHR ''['')"
  shows "bjRead r = (r\<lparr>cur := cur r + 1, depth := depth r + 1\<rparr>,
                     \<lparr>type_v = (if obj then OBJECT else ARRAY), start = int (length pre),
                      end_v = int (length pre) + 1, depth_v = depth r + 1\<rparr>)"
proof -
  from at_head [OF assms(1)] have h: "charAt (data r) (cur r) = Some c" "cur r < end_r r"
    by simp_all
  from assms(1) have ne: "\<not> truthy (error r)" and d: "cur r = int (length pre)"
    by (simp_all add: at_def)
  from h(1) assms(2)
  have m: "charAt (data r) (cur r) \<in> {Some (CHR ''{''), Some (CHR ''['')}" by simp
  from h(1) assms(2) d show ?thesis
    by (simp add: bjRead.simps [of r] bjRead_body_open [OF ne h(2) m])
qed

lemma scan_close:
  assumes "at r pre (c # rest)" and "c = (if obj then CHR ''}'' else CHR '']'')"
    and "1 \<le> depth r"
  shows "bjRead r = (r\<lparr>cur := cur r + 1, depth := depth r - 1\<rparr>,
                     \<lparr>type_v = END, start = int (length pre),
                      end_v = int (length pre) + 1, depth_v = depth r\<rparr>)"
proof -
  from at_head [OF assms(1)] have h: "charAt (data r) (cur r) = Some c" "cur r < end_r r"
    by simp_all
  from assms(1) have ne: "\<not> truthy (error r)" and d: "cur r = int (length pre)"
    by (simp_all add: at_def)
  from h(1) assms(2)
  have m: "charAt (data r) (cur r) \<in> {Some (CHR ''}''), Some (CHR '']'')}" by simp
  from h(1) assms(2,3) d show ?thesis
    by (simp add: bjRead.simps [of r] bjRead_body_close [OF ne h(2) m])
qed

lemma scanned_wholeD:
  "scanned_whole v \<Longrightarrow> at r pre (render v @ post) \<Longrightarrow> 0 \<le> depth r \<Longrightarrow> delimited v post \<Longrightarrow>
     bjRead r = (after_first_token v r, first_token v (int (length pre)) (depth r)) \<and>
     scans (tokens v) r = r\<lparr>cur := int (length (pre @ render v))\<rparr> \<and>
     (\<forall>n. 0 < n \<and> n < tokens v \<longrightarrow> depth r < depth (scans n r))"
  unfolding scanned_whole_def by blast

lemma scans_add: "scans (m + n) r = scans n (scans m r)"
  by (induction m arbitrary: r) simp_all

lemma tokens_pos: "0 < tokens v"
  by (cases v) simp_all

lemma scans_after_padding:
  "padding p \<Longrightarrow> at r pre (p @ rest) \<Longrightarrow> 0 < n \<Longrightarrow>
     scans n r = scans n (r\<lparr>cur := int (length (pre @ p))\<rparr>)"
  using skip_padding [of p r pre rest] by (cases n) simp_all

lemma padding_hd: "padding p \<Longrightarrow> p \<noteq> [] \<Longrightarrow> hd p \<notin> set ''0123456789eE.+-''"
  by (cases p) (auto simp: padding_def)

lemma scanned_items:
  assumes "\<forall>x \<in> set items. padding (fst x) \<and> scanned_whole (snd x)"
    and "\<forall>x \<in> set (tl items). fst x \<noteq> []"
    and "at r pre (concat (map (\<lambda>x. fst x @ render (snd x)) items) @ post)"
    and "post \<noteq> []" and "hd post \<notin> set ''0123456789eE.+-''"
    and "0 \<le> depth r"
  shows "scans (sum_list (map (\<lambda>x. tokens (snd x)) items)) r
           = r\<lparr>cur := int (length (pre @ concat (map (\<lambda>x. fst x @ render (snd x)) items)))\<rparr>
       \<and> (\<forall>n \<le> sum_list (map (\<lambda>x. tokens (snd x)) items). depth r \<le> depth (scans n r))"
  using assms
proof (induction items arbitrary: r pre)
  case Nil
  then have "r\<lparr>cur := int (length pre)\<rparr> = r" by (simp add: at_def)
  then show ?case by simp
next
  case (Cons x items)
  obtain p v where x: "x = (p, v)" by (cases x)
  define post' where "post' = concat (map (\<lambda>x. fst x @ render (snd x)) items) @ post"
  define rp where "rp = r\<lparr>cur := int (length (pre @ p))\<rparr>"
  define rv where "rv = r\<lparr>cur := int (length (pre @ p @ render v))\<rparr>"
  from Cons.prems(1) x have pp: "padding p" and sv: "scanned_whole v" by simp_all
  from Cons.prems(3) x have a: "at r pre (p @ render v @ post')" by (simp add: post'_def)
  from at_step [OF a] have ap: "at rp (pre @ p) (render v @ post')" by (simp add: rp_def)
  have dl: "post' \<noteq> [] \<and> hd post' \<notin> set ''0123456789eE.+-''"
  proof (cases items)
    case Nil
    with Cons.prems(4,5) show ?thesis by (simp add: post'_def)
  next
    case (Cons y ys)
    with Cons.prems(1,2) have "padding (fst y)" "fst y \<noteq> []" by simp_all
    with padding_hd [of "fst y"] Cons show ?thesis by (simp add: post'_def)
  qed
  then have dv: "delimited v post'" by (cases v) simp_all
  have "0 \<le> depth rp" using Cons.prems(6) by (simp add: rp_def)
  from scanned_wholeD [OF sv ap this dv]
  have v1: "scans (tokens v) rp = rp\<lparr>cur := int (length ((pre @ p) @ render v))\<rparr>"
    and v2: "\<forall>n. 0 < n \<and> n < tokens v \<longrightarrow> depth rp < depth (scans n rp)"
    by blast+
  from v1 have v1': "scans (tokens v) rp = rv" by (simp add: rp_def rv_def)
  have sp: "\<And>n. 0 < n \<Longrightarrow> scans n r = scans n rp"
    unfolding rp_def by (rule scans_after_padding [OF pp a])
  from at_step [OF ap] have av: "at rv ((pre @ p) @ render v) post'"
    by (simp add: rp_def rv_def)
  have "\<forall>x \<in> set items. padding (fst x) \<and> scanned_whole (snd x)"
    using Cons.prems(1) by simp
  moreover have "\<forall>x \<in> set (tl items). fst x \<noteq> []"
    using Cons.prems(2) by (cases items) simp_all
  moreover have "at rv ((pre @ p) @ render v)
      (concat (map (\<lambda>x. fst x @ render (snd x)) items) @ post)"
    using av by (simp add: post'_def)
  moreover have "0 \<le> depth rv" using Cons.prems(6) by (simp add: rv_def)
  ultimately have IH:
    "scans (sum_list (map (\<lambda>x. tokens (snd x)) items)) rv
       = rv\<lparr>cur := int (length (((pre @ p) @ render v)
              @ concat (map (\<lambda>x. fst x @ render (snd x)) items)))\<rparr>"
    "\<forall>n \<le> sum_list (map (\<lambda>x. tokens (snd x)) items). depth rv \<le> depth (scans n rv)"
    using Cons.IH [of rv "(pre @ p) @ render v"] Cons.prems(4,5) by simp_all
  let ?S = "sum_list (map (\<lambda>x. tokens (snd x)) items)"
  have tp: "0 < tokens v" by (rule tokens_pos)
  have "scans (tokens v + ?S) r = scans ?S (scans (tokens v) r)" by (rule scans_add)
  also have "scans (tokens v) r = rv" using sp [OF tp] v1' by simp
  finally have fin: "scans (tokens v + ?S) r
      = r\<lparr>cur := int (length (pre @ p @ render v
              @ concat (map (\<lambda>x. fst x @ render (snd x)) items)))\<rparr>"
    using IH(1) by (simp add: rv_def)
  have bound: "depth r \<le> depth (scans n r)" if n: "n \<le> tokens v + ?S" for n
  proof -
    consider (z) "n = 0" | (i) "0 < n" "n < tokens v" | (l) "tokens v \<le> n" by linarith
    then show ?thesis
    proof cases
      case z then show ?thesis by simp
    next
      case i
      with v2 have "depth rp < depth (scans n rp)" by simp
      with sp [OF i(1)] show ?thesis by (simp add: rp_def)
    next
      case l
      then obtain m where m: "n = tokens v + m" using le_Suc_ex by blast
      with n have "m \<le> ?S" by simp
      with IH(2) have "depth rv \<le> depth (scans m rv)" by simp
      moreover have "scans n r = scans m rv"
        unfolding m scans_add using sp [OF tp] v1' by simp
      ultimately show ?thesis by (simp add: rv_def)
    qed
  qed
  from fin bound x show ?case by simp
qed

lemma scanned_container:
  assumes items: "\<forall>x \<in> set items. padding (fst x) \<and> scanned_whole (snd x)"
    and tl: "\<forall>x \<in> set (tl items). fst x \<noteq> []"
    and pp: "padding p"
  shows "scanned_whole (JContainer obj items p)"
  unfolding scanned_whole_def
proof (intro allI impI)
  fix r pre post
  let ?v = "JContainer obj items p"
  let ?op = "if obj then CHR ''{'' else CHR ''[''"
  let ?cl = "if obj then CHR ''}'' else CHR '']''"
  let ?its = "concat (map (\<lambda>x. fst x @ render (snd x)) items)"
  let ?S = "sum_list (map (\<lambda>x. tokens (snd x)) items)"
  assume a: "at r pre (render ?v @ post)" and d0: "0 \<le> depth r"
  from a have a0: "at r pre (?op # (?its @ p @ ?cl # post))" by simp
  note rd = scan_open [OF a0 refl]
  define r1 where "r1 = r\<lparr>cur := cur r + 1, depth := depth r + 1\<rparr>"
  from at_step1 [OF a0] have a1: "at r1 (pre @ [?op]) (?its @ (p @ ?cl # post))"
    by (simp add: r1_def at_def)
  have hd1: "p @ ?cl # post \<noteq> []" "hd (p @ ?cl # post) \<notin> set ''0123456789eE.+-''"
    using padding_hd [OF pp] by (cases p; simp)+
  have d1: "0 \<le> depth r1" using d0 by (simp add: r1_def)
  from scanned_items [OF items tl a1 hd1 d1]
  have s1: "scans ?S r1 = r1\<lparr>cur := int (length ((pre @ [?op]) @ ?its))\<rparr>"
    and b1: "\<forall>n \<le> ?S. depth r1 \<le> depth (scans n r1)" by blast+
  define r2 where "r2 = r1\<lparr>cur := int (length ((pre @ [?op]) @ ?its))\<rparr>"
  from at_step [OF a1] have a2: "at r2 ((pre @ [?op]) @ ?its) (p @ ?cl # post)"
    by (simp add: r2_def)
  define r3 where "r3 = r2\<lparr>cur := int (length (((pre @ [?op]) @ ?its) @ p))\<rparr>"
  from at_step [OF a2] have a3: "at r3 (((pre @ [?op]) @ ?its) @ p) (?cl # post)"
    by (simp add: r3_def)
  have d3: "1 \<le> depth r3" using d0 by (simp add: r3_def r2_def r1_def)
  from skip_padding [OF pp a2] scan_close [OF a3 refl d3]
  have "fst (bjRead r2) = r3\<lparr>cur := cur r3 + 1, depth := depth r3 - 1\<rparr>"
    by (simp add: r3_def)
  also have "\<dots> = r\<lparr>cur := int (length (pre @ render ?v))\<rparr>"
    by (simp add: r3_def r2_def r1_def)
  finally have cl: "fst (bjRead r2) = r\<lparr>cur := int (length (pre @ render ?v))\<rparr>" .
  have s0: "scans (Suc n) r = scans n r1" for n
    using rd by (simp add: r1_def)
  have "tokens ?v = Suc (?S + 1)" by simp
  then have "scans (tokens ?v) r = scans (?S + 1) r1" by (simp only: s0)
  also have "\<dots> = scans 1 (scans ?S r1)" by (rule scans_add)
  also have "\<dots> = fst (bjRead r2)" using s1 by (simp add: r2_def)
  finally have whole: "scans (tokens ?v) r = r\<lparr>cur := int (length (pre @ render ?v))\<rparr>"
    using cl by simp
  have inner: "depth r < depth (scans n r)" if n: "0 < n" "n < tokens ?v" for n
  proof -
    from n(1) obtain m where m: "n = Suc m" by (cases n) simp_all
    with n(2) have "m \<le> ?S" by simp
    with b1 have "depth r1 \<le> depth (scans m r1)" by simp
    then show ?thesis unfolding m s0 by (simp add: r1_def)
  qed
  from a have "cur r = int (length pre)" by (simp add: at_def)
  with rd whole inner
  show "bjRead r = (after_first_token ?v r, first_token ?v (int (length pre)) (depth r)) \<and>
        scans (tokens ?v) r = r\<lparr>cur := int (length (pre @ render ?v))\<rparr> \<and>
        (\<forall>n. 0 < n \<and> n < tokens ?v \<longrightarrow> depth r < depth (scans n r))"
    by simp
qed

lemma well_formed_scanned: "well_formed v \<Longrightarrow> scanned_whole v"
proof (induction v)
  case (JNumber w)
  show ?case
    unfolding scanned_whole_def
  proof (intro allI impI)
    fix r pre post
    assume a: "at r pre (render (JNumber w) @ post)" and dl: "delimited (JNumber w) post"
    from a have a': "at r pre (w @ post)" by simp
    from dl have dl': "post = [] \<or> hd post \<notin> set ''0123456789eE.+-''" by simp
    from a have c: "cur r = int (length pre)" by (simp add: at_def)
    from scan_number [OF a' JNumber dl'] c
    show "bjRead r = (after_first_token (JNumber w) r,
              first_token (JNumber w) (int (length pre)) (depth r)) \<and>
        scans (tokens (JNumber w)) r = r\<lparr>cur := int (length (pre @ render (JNumber w)))\<rparr> \<and>
        (\<forall>n. 0 < n \<and> n < tokens (JNumber w) \<longrightarrow> depth r < depth (scans n r))"
      by auto
  qed
next
  case (JString b)
  show ?case
    unfolding scanned_whole_def
  proof (intro allI impI)
    fix r pre post
    assume a: "at r pre (render (JString b) @ post)"
    from a have a': "at r pre (CHR 0x22 # b @ CHR 0x22 # post)" by simp
    from JString have sb: "string_body b" by simp
    from a have c: "cur r = int (length pre)" by (simp add: at_def)
    from scan_string [OF a' sb] c
    show "bjRead r = (after_first_token (JString b) r,
              first_token (JString b) (int (length pre)) (depth r)) \<and>
        scans (tokens (JString b)) r = r\<lparr>cur := int (length (pre @ render (JString b)))\<rparr> \<and>
        (\<forall>n. 0 < n \<and> n < tokens (JString b) \<longrightarrow> depth r < depth (scans n r))"
      by auto
  qed
next
  case (JLiteral l)
  show ?case
    unfolding scanned_whole_def
  proof (intro allI impI)
    fix r pre post
    assume a: "at r pre (render (JLiteral l) @ post)"
    from a have a': "at r pre (l @ post)" by simp
    from JLiteral have m: "l \<in> {''null'', ''true'', ''false''}" by simp
    from a have c: "cur r = int (length pre)" by (simp add: at_def)
    from scan_literal [OF a' m] c
    show "bjRead r = (after_first_token (JLiteral l) r,
              first_token (JLiteral l) (int (length pre)) (depth r)) \<and>
        scans (tokens (JLiteral l)) r = r\<lparr>cur := int (length (pre @ render (JLiteral l)))\<rparr> \<and>
        (\<forall>n. 0 < n \<and> n < tokens (JLiteral l) \<longrightarrow> depth r < depth (scans n r))"
      by auto
  qed
next
  case (JContainer obj items p)
  have "\<forall>x \<in> set items. padding (fst x) \<and> scanned_whole (snd x)"
  proof
    fix x assume x: "x \<in> set items"
    with JContainer.prems have "padding (fst x)" "well_formed (snd x)" by simp_all
    moreover have "snd x \<in> Basic_BNFs.snds x" by (cases x) simp
    ultimately show "padding (fst x) \<and> scanned_whole (snd x)"
      using JContainer.IH [OF x] by simp
  qed
  moreover from JContainer.prems have "\<forall>x \<in> set (tl items). fst x \<noteq> []" "padding p"
    by simp_all
  ultimately show ?case by (rule scanned_container)
qed

lemma first_token_kind: "type_v (first_token v pos d) \<notin> {ERROR, END}"
  by (cases v) simp_all

lemma bjDiscardUntil_at_depth: "depth r = d \<Longrightarrow> bjDiscardUntil r d = r"
  unfolding bjDiscardUntil_def by (subst bjDiscardUntil_loop.simps) simp

lemma scan_value_after_padding:
  assumes "well_formed v" and "padding q" and "at r pre (q @ render v @ post)"
    and "0 \<le> depth r" and "delimited v post"
  shows "bjRead r = (after_first_token v (r\<lparr>cur := int (length (pre @ q))\<rparr>),
                     first_token v (int (length (pre @ q))) (depth r))"
proof -
  from at_step [OF assms(3)]
  have a: "at (r\<lparr>cur := int (length (pre @ q))\<rparr>) (pre @ q) (render v @ post)" .
  from scanned_wholeD [OF well_formed_scanned [OF assms(1)] a _ assms(5)] assms(4)
  have "bjRead (r\<lparr>cur := int (length (pre @ q))\<rparr>)
      = (after_first_token v (r\<lparr>cur := int (length (pre @ q))\<rparr>),
         first_token v (int (length (pre @ q))) (depth r))"
    by simp
  with skip_padding [OF assms(2,3)] show ?thesis by simp
qed

lemma scan_close_after_padding:
  assumes "padding q" and "at r pre (q @ cl # post)" and "cl \<in> {CHR ''}'', CHR '']''}"
    and "1 \<le> depth r"
  shows "bjRead r = (r\<lparr>cur := int (length (pre @ q)) + 1, depth := depth r - 1\<rparr>,
                     \<lparr>type_v = END, start = int (length (pre @ q)),
                      end_v = int (length (pre @ q)) + 1, depth_v = depth r\<rparr>)"
proof -
  from at_step [OF assms(2)]
  have a: "at (r\<lparr>cur := int (length (pre @ q))\<rparr>) (pre @ q) (cl # post)" .
  from assms(3) have cl: "cl = (if cl = CHR ''}'' then CHR ''}'' else CHR '']'')"
    by auto
  from scan_close [OF a cl] assms(4) skip_padding [OF assms(1,2)]
  show ?thesis by simp
qed

lemma child_discarded:
  assumes wf: "well_formed (JContainer obj items p)"
    and a: "at r pre (render (JContainer obj items p) @ tail)"
    and d: "0 \<le> depth r"
    and n: "n < tokens (JContainer obj items p)"
  shows "bjDiscardUntil (scans n (r\<lparr>cur := cur r + 1, depth := depth r + 1\<rparr>)) (depth r)
           = r\<lparr>cur := int (length (pre @ render (JContainer obj items p)))\<rparr>"
proof -
  define v where "v = JContainer obj items p"
  define r1 where "r1 = r\<lparr>cur := cur r + 1, depth := depth r + 1\<rparr>"
  define A where "A = r\<lparr>cur := int (length (pre @ render v))\<rparr>"
  have dl: "delimited v tail" by (simp add: v_def)
  have af: "after_first_token v r = r1" by (simp add: v_def r1_def)
  from scanned_wholeD [OF well_formed_scanned [OF wf] a d] dl
  have rd: "bjRead r = (r1, first_token v (int (length pre)) (depth r))"
    and whole: "scans (tokens v) r = A"
    and inner: "\<forall>k. 0 < k \<and> k < tokens v \<longrightarrow> depth r < depth (scans k r)"
    unfolding v_def [symmetric] af A_def by blast+
  have s0: "scans (Suc k) r = scans k r1" for k using rd by simp
  obtain T where T: "tokens v = Suc T" using tokens_pos [of v] by (cases "tokens v") simp_all
  from whole have AT: "scans T r1 = A" unfolding T s0 .
  have ne: "depth (scans k r1) \<noteq> depth r" if "k < T" for k
    using inner [rule_format, of "Suc k"] that unfolding T s0 by simp
  have all: "list_all (\<lambda>k. depth (scans k r1) \<noteq> depth r) [0..<m]" if "m \<le> T" for m
    using ne that by (simp add: list_all_iff)
  from n T have "n \<le> T" by (simp add: v_def)
  from bjDiscardUntil_after_scans [OF all [OF this]] bjDiscardUntil_after_scans [OF all [OF le_refl]]
  have "bjDiscardUntil (scans n r1) (depth r) = bjDiscardUntil (scans T r1) (depth r)"
    by simp
  also have "\<dots> = A" unfolding AT by (rule bjDiscardUntil_at_depth) (simp add: A_def)
  finally show ?thesis unfolding r1_def A_def v_def .
qed

lemma at_cur: "at r pre rest \<Longrightarrow> cur r = int (length pre)"
  by (simp add: at_def)

text \<open>
  Claim C4. The input is well-formed around a nested container: the reader \<open>r\<close> stands
  inside the enclosing container \<open>c\<close>, at its depth, before the padding \<open>lead\<close> and the
  text of a well-formed child container, and \<open>tail\<close> is the rest of the input. The step
  of the array iterator over \<open>c\<close> hands the child's opening token to the caller (in an
  object the scan after the key does). The caller then scans \<open>n\<close> tokens of the child,
  none, some or all of them up to its closing bracket, and abandons it. Whatever \<open>n\<close> is:
  \<^item> \<^verbatim>\<open>bjDiscardUntil\<close> to the depth of \<open>c\<close> leaves the reader just after the child's text,
    at the depth of \<open>c\<close>, with no error: the reader that scanning the whole child gives;
  \<^item> if a well-formed sibling follows in \<open>tail\<close>, the next step of the array iterator over
    \<open>c\<close> yields that sibling's token;
  \<^item> if a key and a well-formed value follow, the next step of the object iterator over
    \<open>c\<close> yields that pair;
  \<^item> if the closing bracket of \<open>c\<close> follows, the next step of either iterator reports
    done, and the reader has left \<open>c\<close> with no error.
  The step after a yielded sibling starts from a reader that does not depend on \<open>n\<close>, so
  the siblings after it are yielded as they are with nothing abandoned.
\<close>

theorem abandoned_child_then_siblings:
  assumes wf: "well_formed (JContainer obj items p)"
    and lead: "padding lead"
    and a: "at r pre (lead @ render (JContainer obj items p) @ tail)"
    and d: "1 \<le> depth r"
    and c: "depth_v c = depth r"
    and n: "n < tokens (JContainer obj items p)"
  shows
    "bjIterArray r c =
       (r\<lparr>cur := int (length (pre @ lead)) + 1, depth := depth r + 1\<rparr>,
        \<lparr>done_a = False,
         value_a = Some \<lparr>type_v = (if obj then OBJECT else ARRAY),
                          start = int (length (pre @ lead)),
                          end_v = int (length (pre @ lead)) + 1,
                          depth_v = depth r + 1\<rparr>\<rparr>)
     \<and> bjDiscardUntil
          (scans n (r\<lparr>cur := int (length (pre @ lead)) + 1, depth := depth r + 1\<rparr>)) (depth_v c)
         = r\<lparr>cur := int (length (pre @ lead @ render (JContainer obj items p)))\<rparr>
     \<and> scans (tokens (JContainer obj items p)) r
         = r\<lparr>cur := int (length (pre @ lead @ render (JContainer obj items p)))\<rparr>
     \<and> (padding q \<and> well_formed sib \<and> delimited sib rest \<and> tail = q @ render sib @ rest \<longrightarrow>
          bjIterArray
            (scans n (r\<lparr>cur := int (length (pre @ lead)) + 1, depth := depth r + 1\<rparr>)) c
          = (after_first_token sib
               (r\<lparr>cur := int (length (pre @ lead @ render (JContainer obj items p) @ q))\<rparr>),
             \<lparr>done_a = False,
              value_a = Some (first_token sib
                (int (length (pre @ lead @ render (JContainer obj items p) @ q))) (depth r))\<rparr>))
     \<and> (padding q \<and> string_body k \<and> padding q' \<and> well_formed sib \<and> delimited sib rest \<and>
          tail = q @ render (JString k) @ q' @ render sib @ rest \<longrightarrow>
          bjIterObject
            (scans n (r\<lparr>cur := int (length (pre @ lead)) + 1, depth := depth r + 1\<rparr>)) c
          = (after_first_token sib
               (r\<lparr>cur := int (length (pre @ lead @ render (JContainer obj items p) @ q
                                        @ render (JString k) @ q'))\<rparr>),
             \<lparr>done_o = False,
              key_o = Some (first_token (JString k)
                (int (length (pre @ lead @ render (JContainer obj items p) @ q))) (depth r)),
              value_o = Some (first_token sib
                (int (length (pre @ lead @ render (JContainer obj items p) @ q
                              @ render (JString k) @ q'))) (depth r))\<rparr>))
     \<and> (padding q \<and> cl \<in> {CHR ''}'', CHR '']''} \<and> tail = q @ cl # rest \<longrightarrow>
          bjIterArray
            (scans n (r\<lparr>cur := int (length (pre @ lead)) + 1, depth := depth r + 1\<rparr>)) c
          = (r\<lparr>cur := int (length (pre @ lead @ render (JContainer obj items p) @ q)) + 1,
               depth := depth r - 1\<rparr>,
             \<lparr>done_a = True, value_a = None\<rparr>)
        \<and> bjIterObject
            (scans n (r\<lparr>cur := int (length (pre @ lead)) + 1, depth := depth r + 1\<rparr>)) c
          = (r\<lparr>cur := int (length (pre @ lead @ render (JContainer obj items p) @ q)) + 1,
               depth := depth r - 1\<rparr>,
             \<lparr>done_o = True, key_o = None, value_o = None\<rparr>))"
proof -
  define v where "v = JContainer obj items p"
  define r1 where "r1 = r\<lparr>cur := int (length (pre @ lead)) + 1, depth := depth r + 1\<rparr>"
  define A where "A = r\<lparr>cur := int (length (pre @ lead @ render v))\<rparr>"
  define rp where "rp = r\<lparr>cur := int (length (pre @ lead))\<rparr>"
  note [simp del] = render.simps tokens.simps well_formed.simps
  have wfv: "well_formed v" using wf by (simp add: v_def)
  have d0: "0 \<le> depth r" using d by simp
  from a have av: "at r pre (lead @ render v @ tail)" by (simp add: v_def)
  have dl: "delimited v tail" by (simp add: v_def)
  from scan_value_after_padding [OF wfv lead av d0 dl]
  have rd: "bjRead r = (r1, first_token v (int (length (pre @ lead))) (depth r))"
    by (simp add: v_def r1_def)
  have step: "bjIterArray r c = (r1, \<lparr>done_a = False,
      value_a = Some (first_token v (int (length (pre @ lead))) (depth r))\<rparr>)"
    using first_token_kind [of v "int (length (pre @ lead))" "depth r"]
    by (simp add: bjIterArray_def bjDiscardUntil_at_depth c rd)
  from at_step [OF av] have ap: "at rp (pre @ lead) (render v @ tail)" by (simp add: rp_def)
  have "bjDiscardUntil (scans n (rp\<lparr>cur := cur rp + 1, depth := depth rp + 1\<rparr>)) (depth rp)
      = rp\<lparr>cur := int (length ((pre @ lead) @ render v))\<rparr>"
    unfolding v_def
    by (rule child_discarded [OF wf _ _ n]) (use ap d0 in \<open>simp_all add: v_def rp_def\<close>)
  then have disc: "bjDiscardUntil (scans n r1) (depth_v c) = A"
    by (simp add: rp_def r1_def A_def c)
  have full: "scans (tokens v) r = A"
  proof -
    from scanned_wholeD [OF well_formed_scanned [OF wfv] ap _ dl] d0
    have "scans (tokens v) rp = rp\<lparr>cur := int (length ((pre @ lead) @ render v))\<rparr>"
      by (simp add: rp_def)
    with scans_after_padding [OF lead av tokens_pos [of v]] show ?thesis
      by (simp add: rp_def A_def)
  qed
  from at_step [OF ap] have aA: "at A (pre @ lead @ render v) tail"
    by (simp add: rp_def A_def)
  have dA: "depth A = depth r" by (simp add: A_def)
  have sibling: "bjIterArray (scans n r1) c
      = (after_first_token sib (r\<lparr>cur := int (length (pre @ lead @ render v @ q))\<rparr>),
         \<lparr>done_a = False,
          value_a = Some (first_token sib (int (length (pre @ lead @ render v @ q))) (depth r))\<rparr>)"
    if h: "padding q" "well_formed sib" "delimited sib rest" "tail = q @ render sib @ rest"
  proof -
    from aA h(4) have "at A (pre @ lead @ render v) (q @ render sib @ rest)" by simp
    from scan_value_after_padding [OF h(2) h(1) this _ h(3)] d0
    have "bjRead A = (after_first_token sib (A\<lparr>cur := int (length ((pre @ lead @ render v) @ q))\<rparr>),
        first_token sib (int (length ((pre @ lead @ render v) @ q))) (depth r))"
      by (simp add: dA)
    then show ?thesis
      using first_token_kind [of sib "int (length (pre @ lead @ render v @ q))" "depth r"]
      by (simp add: bjIterArray_def disc A_def)
  qed
  have pair: "bjIterObject (scans n r1) c
      = (after_first_token sib
           (r\<lparr>cur := int (length (pre @ lead @ render v @ q @ render (JString k) @ q'))\<rparr>),
         \<lparr>done_o = False,
          key_o = Some (first_token (JString k) (int (length (pre @ lead @ render v @ q))) (depth r)),
          value_o = Some (first_token sib
            (int (length (pre @ lead @ render v @ q @ render (JString k) @ q'))) (depth r))\<rparr>)"
    if h: "padding q" "string_body k" "padding q'" "well_formed sib" "delimited sib rest"
      "tail = q @ render (JString k) @ q' @ render sib @ rest"
  proof -
    define K where "K = r\<lparr>cur := int (length (pre @ lead @ render v @ q @ render (JString k)))\<rparr>"
    have wk: "well_formed (JString k)" using h(2) by (simp add: well_formed.simps)
    from aA h(6)
    have a1: "at A (pre @ lead @ render v) (q @ render (JString k) @ (q' @ render sib @ rest))"
      by simp
    have "delimited (JString k) (q' @ render sib @ rest)" by simp
    from scan_value_after_padding [OF wk h(1) a1 _ this] d0
    have k: "bjRead A = (K, first_token (JString k) (int (length (pre @ lead @ render v @ q))) (depth r))"
      by (simp add: dA A_def K_def)
    from at_step [OF a1] have "at (A\<lparr>cur := int (length ((pre @ lead @ render v) @ q))\<rparr>)
        ((pre @ lead @ render v) @ q) (render (JString k) @ (q' @ render sib @ rest))" .
    from at_step [OF this]
    have a2: "at K (pre @ lead @ render v @ q @ render (JString k)) (q' @ render sib @ rest)"
      by (simp add: A_def K_def)
    from scan_value_after_padding [OF h(4) h(3) a2 _ h(5)] d0
    have s: "bjRead K = (after_first_token sib
          (r\<lparr>cur := int (length (pre @ lead @ render v @ q @ render (JString k) @ q'))\<rparr>),
        first_token sib (int (length (pre @ lead @ render v @ q @ render (JString k) @ q')))
          (depth r))"
      by (simp add: K_def)
    show ?thesis
      using first_token_kind [of "JString k" "int (length (pre @ lead @ render v @ q))" "depth r"]
        first_token_kind [of sib
          "int (length (pre @ lead @ render v @ q @ render (JString k) @ q'))" "depth r"]
      by (simp add: bjIterObject_def disc k s)
  qed
  have closing: "bjRead A = (r\<lparr>cur := int (length (pre @ lead @ render v @ q)) + 1,
          depth := depth r - 1\<rparr>,
        \<lparr>type_v = END, start = int (length (pre @ lead @ render v @ q)),
         end_v = int (length (pre @ lead @ render v @ q)) + 1, depth_v = depth r\<rparr>)"
    if h: "padding q" "cl \<in> {CHR ''}'', CHR '']''}" "tail = q @ cl # rest"
  proof -
    from aA h(3) have "at A (pre @ lead @ render v) (q @ cl # rest)" by simp
    from scan_close_after_padding [OF h(1) this h(2)] d show ?thesis
      by (simp add: dA A_def)
  qed
  have fin_a: "bjIterArray (scans n r1) c
      = (r\<lparr>cur := int (length (pre @ lead @ render v @ q)) + 1, depth := depth r - 1\<rparr>,
         \<lparr>done_a = True, value_a = None\<rparr>)"
    if h: "padding q" "cl \<in> {CHR ''}'', CHR '']''}" "tail = q @ cl # rest"
    using closing [OF h] by (simp add: bjIterArray_def disc)
  have fin_o: "bjIterObject (scans n r1) c
      = (r\<lparr>cur := int (length (pre @ lead @ render v @ q)) + 1, depth := depth r - 1\<rparr>,
         \<lparr>done_o = True, key_o = None, value_o = None\<rparr>)"
    if h: "padding q" "cl \<in> {CHR ''}'', CHR '']''}" "tail = q @ cl # rest"
    using closing [OF h] by (simp add: bjIterObject_def disc)
  from step have step': "bjIterArray r c =
       (r1, \<lparr>done_a = False,
         value_a = Some \<lparr>type_v = (if obj then OBJECT else ARRAY),
                          start = int (length (pre @ lead)),
                          end_v = int (length (pre @ lead)) + 1,
                          depth_v = depth r + 1\<rparr>\<rparr>)"
    by (simp add: v_def)
  show ?thesis
    unfolding v_def [symmetric] r1_def [symmetric]
    using step' disc full sibling pair fin_a fin_o unfolding A_def
    by blast
qed

text \<open>
  The array \<^verbatim>\<open>[[1, [2]], 3]\<close>: the first step over the root yields the nested array;
  whether the caller then scans none or up to all five of its tokens, the next step over
  the root yields the Number \<^verbatim>\<open>3\<close>, and the step after it reports done. The object
  \<^verbatim>\<open>{"a": {"b": 1}}\<close>: after the key \<^verbatim>\<open>a\<close> and the nested object, abandoned after none to
  three scans, the next step over the root reports done with no error. The object
  \<^verbatim>\<open>{"a": [1], "b": 2}\<close>: after the nested array is abandoned the next step yields the pair
  of \<^verbatim>\<open>b\<close> and \<^verbatim>\<open>2\<close>.
\<close>

theorem abandoned_child_then_siblings_witness:
  \<open>bjRead (bjReader ''[[1, [2]], 3]'')
     = (\<lparr>data = ''[[1, [2]], 3]'', cur = 1, end_r = 13, depth = 1, error = None\<rparr>,
        \<lparr>type_v = ARRAY, start = 0, end_v = 1, depth_v = 1\<rparr>)
   \<and> well_formed (JContainer False
         [('''', JNumber ''1''), ('', '', JContainer False [('''', JNumber ''2'')] '''')] '''')
   \<and> at \<lparr>data = ''[[1, [2]], 3]'', cur = 1, end_r = 13, depth = 1, error = None\<rparr> ''[''
        (render (JContainer False
           [('''', JNumber ''1''), ('', '', JContainer False [('''', JNumber ''2'')] '''')] '''')
         @ '', 3]'')
   \<and> tokens (JContainer False
         [('''', JNumber ''1''), ('', '', JContainer False [('''', JNumber ''2'')] '''')] '''') = 6
   \<and> bjIterArray \<lparr>data = ''[[1, [2]], 3]'', cur = 1, end_r = 13, depth = 1, error = None\<rparr>
         \<lparr>type_v = ARRAY, start = 0, end_v = 1, depth_v = 1\<rparr>
       = (\<lparr>data = ''[[1, [2]], 3]'', cur = 2, end_r = 13, depth = 2, error = None\<rparr>,
          \<lparr>done_a = False, value_a = Some \<lparr>type_v = ARRAY, start = 1, end_v = 2, depth_v = 2\<rparr>\<rparr>)
   \<and> list_all (\<lambda>n. bjIterArray
          (scans n \<lparr>data = ''[[1, [2]], 3]'', cur = 2, end_r = 13, depth = 2, error = None\<rparr>)
          \<lparr>type_v = ARRAY, start = 0, end_v = 1, depth_v = 1\<rparr>
        = (\<lparr>data = ''[[1, [2]], 3]'', cur = 12, end_r = 13, depth = 1, error = None\<rparr>,
           \<lparr>done_a = False,
            value_a = Some \<lparr>type_v = NUMBER, start = 11, end_v = 12, depth_v = 1\<rparr>\<rparr>))
       [0, 1, 2, 3, 4, 5]
   \<and> bjIterArray \<lparr>data = ''[[1, [2]], 3]'', cur = 12, end_r = 13, depth = 1, error = None\<rparr>
         \<lparr>type_v = ARRAY, start = 0, end_v = 1, depth_v = 1\<rparr>
       = (\<lparr>data = ''[[1, [2]], 3]'', cur = 13, end_r = 13, depth = 0, error = None\<rparr>,
          \<lparr>done_a = True, value_a = None\<rparr>)
   \<and> bjIterObject (fst (bjRead (bjReader ''{"a": {"b": 1}}'')))
         \<lparr>type_v = OBJECT, start = 0, end_v = 1, depth_v = 1\<rparr>
       = (\<lparr>data = ''{"a": {"b": 1}}'', cur = 7, end_r = 15, depth = 2, error = None\<rparr>,
          \<lparr>done_o = False,
           key_o = Some \<lparr>type_v = STRING, start = 2, end_v = 3, depth_v = 1\<rparr>,
           value_o = Some \<lparr>type_v = OBJECT, start = 6, end_v = 7, depth_v = 2\<rparr>\<rparr>)
   \<and> list_all (\<lambda>n. bjIterObject
          (scans n \<lparr>data = ''{"a": {"b": 1}}'', cur = 7, end_r = 15, depth = 2, error = None\<rparr>)
          \<lparr>type_v = OBJECT, start = 0, end_v = 1, depth_v = 1\<rparr>
        = (\<lparr>data = ''{"a": {"b": 1}}'', cur = 15, end_r = 15, depth = 0, error = None\<rparr>,
           \<lparr>done_o = True, key_o = None, value_o = None\<rparr>))
       [0, 1, 2, 3]
   \<and> list_all (\<lambda>n. bjIterObject
          (scans n \<lparr>data = ''{"a": [1], "b": 2}'', cur = 7, end_r = 18, depth = 2, error = None\<rparr>)
          \<lparr>type_v = OBJECT, start = 0, end_v = 1, depth_v = 1\<rparr>
        = (\<lparr>data = ''{"a": [1], "b": 2}'', cur = 17, end_r = 18, depth = 1, error = None\<rparr>,
           \<lparr>done_o = False,
            key_o = Some \<lparr>type_v = STRING, start = 12, end_v = 13, depth_v = 1\<rparr>,
            value_o = Some \<lparr>type_v = NUMBER, start = 16, end_v = 17, depth_v = 1\<rparr>\<rparr>))
       [0, 1, 2]\<close>
  using
    abandoned_child_then_siblings
      [where obj = False
         and items = \<open>[('''', JNumber ''1''), ('', '', JContainer False [('''', JNumber ''2'')] '''')]\<close>
         and p = \<open>''''\<close> and lead = \<open>''''\<close> and pre = \<open>''[''\<close> and tail = \<open>'', 3]''\<close>
         and r = \<open>\<lparr>data = ''[[1, [2]], 3]'', cur = 1, end_r = 13, depth = 1, error = None\<rparr>\<close>
         and c = \<open>\<lparr>type_v = ARRAY, start = 0, end_v = 1, depth_v = 1\<rparr>\<close>
         and n = 1 and q = \<open>'', ''\<close> and sib = \<open>JNumber ''3''\<close> and rest = \<open>'']''\<close>
         and k = \<open>''''\<close> and q' = \<open>''''\<close> and cl = \<open>CHR '']''\<close>]
    abandoned_child_then_siblings
      [where obj = True
         and items = \<open>[('''', JString ''b''), ('': '', JNumber ''1'')]\<close>
         and p = \<open>''''\<close> and lead = \<open>'': ''\<close> and pre = \<open>''{"a"''\<close> and tail = \<open>''}''\<close>
         and r = \<open>\<lparr>data = ''{"a": {"b": 1}}'', cur = 4, end_r = 15, depth = 1, error = None\<rparr>\<close>
         and c = \<open>\<lparr>type_v = OBJECT, start = 0, end_v = 1, depth_v = 1\<rparr>\<close>
         and n = 1 and q = \<open>''''\<close> and sib = \<open>JNumber ''3''\<close> and rest = \<open>''''\<close>
         and k = \<open>''''\<close> and q' = \<open>''''\<close> and cl = \<open>CHR ''}''\<close>]
    abandoned_child_then_siblings
      [where obj = False
         and items = \<open>[('''', JNumber ''1'')]\<close>
         and p = \<open>''''\<close> and lead = \<open>'': ''\<close> and pre = \<open>''{"a"''\<close> and tail = \<open>'', "b": 2}''\<close>
         and r = \<open>\<lparr>data = ''{"a": [1], "b": 2}'', cur = 4, end_r = 18, depth = 1, error = None\<rparr>\<close>
         and c = \<open>\<lparr>type_v = OBJECT, start = 0, end_v = 1, depth_v = 1\<rparr>\<close>
         and n = 0 and q = \<open>'', ''\<close> and sib = \<open>JNumber ''2''\<close> and rest = \<open>''}''\<close>
         and k = \<open>''b''\<close> and q' = \<open>'': ''\<close> and cl = \<open>CHR ''}''\<close>]
  by code_simp

section \<open>Iterating an array of scalars\<close>

text \<open>
  Claim C5. On the input \<^verbatim>\<open>[1, 2, 3]\<close>, after the root Array token has been scanned, three
  calls of \<^verbatim>\<open>bjIterArray\<close> yield Number values whose projections by \<^verbatim>\<open>bjGetNumber\<close> are
  1, 2 and 3 in this order, the fourth call reports done, and no error is set at any
  point.
\<close>

theorem bjIterArray_1_2_3:
  "(let r0 = bjReader ''[1, 2, 3]'';
        (r1, arr) = bjRead r0;
        (r2, a) = bjIterArray r1 arr;
        (r3, b) = bjIterArray r2 arr;
        (r4, c) = bjIterArray r3 arr;
        (r5, d) = bjIterArray r4 arr
    in type_v arr = ARRAY
     \<and> map done_a [a, b, c] = [False, False, False]
     \<and> map (map_option type_v \<circ> value_a) [a, b, c] = [Some NUMBER, Some NUMBER, Some NUMBER]
     \<and> map (map_option (bjGetNumber r5) \<circ> value_a) [a, b, c]
         = [Some (Inr (Decimal 1 0)), Some (Inr (Decimal 2 0)), Some (Inr (Decimal 3 0))]
     \<and> d = \<lparr>done_a = True, value_a = None\<rparr>
     \<and> map error [r1, r2, r3, r4, r5] = [None, None, None, None, None])"
  by code_simp

section \<open>Number tokens\<close>

lemma number_loop_takeWhile:
  "bjRead_number_loop r =
     r\<lparr>cur := cur r + int (length (takeWhile (\<lambda>i. isNumberCont (charAt (data r) i))
                                   [cur r..end_r r - 1]))\<rparr>"
proof (induction r rule: bjRead_number_loop.induct)
  case (1 r)
  show ?case
  proof (cases "cur r < end_r r \<and> isNumberCont (charAt (data r) (cur r))")
    case True
    then have u: "[cur r..end_r r - 1] = cur r # [cur r + 1..end_r r - 1]"
      by (simp add: upto_rec1)
    from True have "bjRead_number_loop r = bjRead_number_loop (r\<lparr>cur := cur r + 1\<rparr>)"
      by (subst bjRead_number_loop.simps) simp
    also note "1.IH" [OF True]
    finally show ?thesis using True by (simp add: u)
  next
    case False
    then have "bjRead_number_loop r = r" by (subst bjRead_number_loop.simps) auto
    moreover from False
    have "takeWhile (\<lambda>i. isNumberCont (charAt (data r) i)) [cur r..end_r r - 1] = []"
      by (cases "cur r < end_r r") (simp_all add: upto_rec1)
    ultimately show ?thesis by simp
  qed
qed

text \<open>
  Claim C6. Where \<^verbatim>\<open>bjRead\<close> scans a token that starts with a digit or \<^verbatim>\<open>-\<close> (separators
  before it having been passed over, see \<open>bjRead_skip_separator\<close>), it returns
  one Number value whose span starts there and covers the longest run of characters
  from \<^verbatim>\<open>0123456789eE.+-\<close> before the end of the input: the run is what \<open>takeWhile\<close> takes
  from the positions \<open>cur, ..., end - 1\<close>, so it stops at the first character outside the
  set. The cursor is left just after the run, depth and error are unchanged, and
  nothing else about the text is checked, so \<^verbatim>\<open>1.2.3\<close> is one Number span.
\<close>

theorem bjRead_number_span:
  assumes "\<not> truthy (error r)" and "cur r < end_r r"
    and "charAt (data r) (cur r) = Some ch" and "ch \<in> set ''-0123456789''"
  shows "bjRead r =
      (r\<lparr>cur := cur r + int (length (takeWhile
            (\<lambda>i. \<exists>c \<in> set ''0123456789eE.+-''. charAt (data r) i = Some c)
            [cur r..end_r r - 1]))\<rparr>,
       \<lparr>type_v = NUMBER, start = cur r,
        end_v = cur r + int (length (takeWhile
            (\<lambda>i. \<exists>c \<in> set ''0123456789eE.+-''. charAt (data r) i = Some c)
            [cur r..end_r r - 1])),
        depth_v = depth r\<rparr>)
     \<and> 1 \<le> length (takeWhile (\<lambda>i. \<exists>c \<in> set ''0123456789eE.+-''. charAt (data r) i = Some c)
            [cur r..end_r r - 1])"
proof -
  from assms(3,4)
  have m: "charAt (data r) (cur r) \<in> {Some (CHR ''-''), Some (CHR ''0''), Some (CHR ''1''),
        Some (CHR ''2''), Some (CHR ''3''), Some (CHR ''4''), Some (CHR ''5''),
        Some (CHR ''6''), Some (CHR ''7''), Some (CHR ''8''), Some (CHR ''9'')}"
    by auto
  then have nc: "isNumberCont (charAt (data r) (cur r))"
    by (elim insertE emptyE; simp add: isNumberCont_def)
  have rd: "bjRead r = (bjRead_number_loop r,
       \<lparr>type_v = NUMBER, start = cur r, end_v = cur (bjRead_number_loop r), depth_v = depth r\<rparr>)"
    by (simp add: bjRead.simps [of r] bjRead_body_number [OF assms(1,2) m])
  from assms(2) nc
  have one: "1 \<le> length (takeWhile (\<lambda>i. isNumberCont (charAt (data r) i)) [cur r..end_r r - 1])"
    by (simp add: upto_rec1)
  have "bjRead r =
      (r\<lparr>cur := cur r + int (length (takeWhile (\<lambda>i. isNumberCont (charAt (data r) i))
            [cur r..end_r r - 1]))\<rparr>,
       \<lparr>type_v = NUMBER, start = cur r,
        end_v = cur r + int (length (takeWhile (\<lambda>i. isNumberCont (charAt (data r) i))
            [cur r..end_r r - 1])),
        depth_v = depth r\<rparr>)"
    using rd by (simp add: number_loop_takeWhile [of r])
  with one show ?thesis unfolding isNumberCont_set by simp
qed

text \<open>
  On \<^verbatim>\<open>12,3\<close> the run stops at the comma and on \<^verbatim>\<open>-1.5e+3]\<close> at the bracket; on \<^verbatim>\<open>1x\<close> it
  stops at the letter, which is left for the next scan. On \<^verbatim>\<open>1.2.3\<close> the span is the
  whole text; \<^verbatim>\<open>parseFloat\<close> reads its longest numeric prefix \<^verbatim>\<open>1.2\<close>. The span \<^verbatim>\<open>-\<close>, which
  is accepted as a Number as well, projects to not-a-number.
\<close>

theorem bjRead_number_span_witness:
  "\<not> truthy (error (bjReader ''12,3'')) \<and> cur (bjReader ''12,3'') < end_r (bjReader ''12,3'')
   \<and> charAt (data (bjReader ''12,3'')) (cur (bjReader ''12,3'')) = Some (CHR ''1'')
   \<and> CHR ''1'' \<in> set ''-0123456789''
   \<and> bjRead (bjReader ''12,3'') =
       (\<lparr>data = ''12,3'', cur = 2, end_r = 4, depth = 0, error = None\<rparr>,
        \<lparr>type_v = NUMBER, start = 0, end_v = 2, depth_v = 0\<rparr>)
   \<and> bjRead (bjReader ''-1.5e+3]'') =
       (\<lparr>data = ''-1.5e+3]'', cur = 7, end_r = 8, depth = 0, error = None\<rparr>,
        \<lparr>type_v = NUMBER, start = 0, end_v = 7, depth_v = 0\<rparr>)
   \<and> bjRead (bjReader ''1x'') =
       (\<lparr>data = ''1x'', cur = 1, end_r = 2, depth = 0, error = None\<rparr>,
        \<lparr>type_v = NUMBER, start = 0, end_v = 1, depth_v = 0\<rparr>)
   \<and> bjRead (bjReader ''1.2.3'') =
       (\<lparr>data = ''1.2.3'', cur = 5, end_r = 5, depth = 0, error = None\<rparr>,
        \<lparr>type_v = NUMBER, start = 0, end_v = 5, depth_v = 0\<rparr>)
   \<and> bjGetNumber (bjReader ''1.2.3'') (snd (bjRead (bjReader ''1.2.3''))) = Inr (Rounded 12 (- 1))
   \<and> bjRead (bjReader ''-'') =
       (\<lparr>data = ''-'', cur = 1, end_r = 1, depth = 0, error = None\<rparr>,
        \<lparr>type_v = NUMBER, start = 0, end_v = 1, depth_v = 0\<rparr>)
   \<and> bjGetNumber (bjReader ''-'') (snd (bjRead (bjReader ''-''))) = Inr NaN"
  using bjRead_number_span [of "bjReader ''12,3''" "CHR ''1''"]
    bjRead_number_span [of "bjReader ''-1.5e+3]''" "CHR ''-''"]
    bjRead_number_span [of "bjReader ''1x''" "CHR ''1''"]
    bjRead_number_span [of "bjReader ''1.2.3''" "CHR ''1''"]
    bjRead_number_span [of "bjReader ''-''" "CHR ''-''"]
  by code_simp

section \<open>String tokens\<close>

text \<open>
  The position of the closing quote as the specification words it, on the characters
  that follow the opening quote: the first quote met, where a backslash makes the
  character after it be skipped unread. \<open>None\<close> when the characters run out first.
\<close>

fun closing_quote :: "char option list \<Rightarrow> nat option" where
  "closing_quote [] = None"
| "closing_quote (c # cs) =
     (if c = Some (CHR 0x22) then Some 0
      else if c = Some (CHR 0x5C) then
        (case cs of [] \<Rightarrow> None | _ # cs' \<Rightarrow> map_option (\<lambda>k. k + 2) (closing_quote cs'))
      else map_option Suc (closing_quote cs))"

lemma string_loop_closing_quote:
  "cur r \<le> end_r r \<Longrightarrow>
   bjRead_string_loop r =
     (case closing_quote (map (charAt (data r)) [cur r..end_r r - 1]) of
        Some k \<Rightarrow> (r\<lparr>cur := cur r + int k\<rparr>, True)
      | None \<Rightarrow> (r\<lparr>cur := end_r r\<rparr>, False))"
proof (induction r rule: bjRead_string_loop.induct)
  case (1 r)
  show ?case
  proof (cases "cur r \<ge> end_r r")
    case True
    with "1.prems" have "cur r = end_r r" by simp
    then show ?thesis by (subst bjRead_string_loop.simps) simp
  next
    case False
    then have lt: "cur r < end_r r" by simp
    then have u: "[cur r..end_r r - 1] = cur r # [cur r + 1..end_r r - 1]"
      by (simp add: upto_rec1)
    show ?thesis
    proof (cases "charAt (data r) (cur r) = Some (CHR 0x22)")
      case True
      with lt show ?thesis by (subst bjRead_string_loop.simps) (simp add: u)
    next
      case nq: False
      define r1 where "r1 = (if charAt (data r) (cur r) = Some (CHR 0x5C) then r\<lparr>cur := cur r + 1\<rparr> else r)"
      define r2 where "r2 = (if cur r1 < end_r r1 then r1\<lparr>cur := cur r1 + 1\<rparr> else r1)"
      have eq: "bjRead_string_loop r = bjRead_string_loop r2"
        using False nq by (subst bjRead_string_loop.simps) (simp add: r1_def r2_def Let_def)
      have le2: "cur r2 \<le> end_r r2" using lt by (auto simp: r1_def r2_def)
      note IH = "1.IH" [OF False nq r1_def r2_def le2]
      show ?thesis
      proof (cases "charAt (data r) (cur r) = Some (CHR 0x5C)")
        case bs: True
        show ?thesis
        proof (cases "cur r + 1 < end_r r")
          case True
          then have u2: "[cur r + 1..end_r r - 1] = (cur r + 1) # [cur r + 2..end_r r - 1]"
            using upto_rec1 [of "cur r + 1" "end_r r - 1"] by (simp add: ac_simps)
          from bs True have r2: "r2 = r\<lparr>cur := cur r + 2\<rparr>" by (simp add: r1_def r2_def)
          show ?thesis unfolding eq IH using bs nq
            by (simp add: r2 u u2 split: option.splits)
        next
          case False
          with lt have e1: "cur r + 1 = end_r r" by simp
          with bs have r2: "r2 = r\<lparr>cur := end_r r\<rparr>" by (simp add: r1_def r2_def)
          from e1 have u2: "[cur r + 1..end_r r - 1] = []" by simp
          show ?thesis unfolding eq IH using bs nq
            by (simp add: r2 u u2)
        qed
      next
        case nb: False
        with lt have r2: "r2 = r\<lparr>cur := cur r + 1\<rparr>" by (simp add: r1_def r2_def)
        show ?thesis unfolding eq IH using nb nq
          by (simp add: r2 u split: option.splits)
      qed
    qed
  qed
qed

lemma substring_inside:
  "0 \<le> a \<Longrightarrow> a + int k \<le> int (length s) \<Longrightarrow>
     substring s a (a + int k) = take k (drop (nat a) s)"
  by (simp add: substring_def Let_def min_def max_def)

text \<open>
  Claim C7. Where \<^verbatim>\<open>bjRead\<close> scans a token that starts with a double quote, let \<open>k\<close> be the
  offset of the closing quote among the characters after the opening quote up to the end
  of the input. If there is one, the result is a String value whose span starts just
  after the opening quote and ends just before the closing quote, and the cursor is left
  just after the closing quote; \<^verbatim>\<open>bjGetString\<close> on it returns those \<open>k\<close> characters of the
  buffer as they are, backslashes included. If there is none, the error
  \<^verbatim>\<open>unclosed string\<close> is stored and an Error Value is returned.
\<close>

theorem bjRead_string_span:
  assumes "\<not> truthy (error r)" and "cur r < end_r r"
    and "charAt (data r) (cur r) = Some (CHR 0x22)"
  shows "(case closing_quote (map (charAt (data r)) [cur r + 1..end_r r - 1]) of
       Some k \<Rightarrow>
         bjRead r = (r\<lparr>cur := cur r + int k + 2\<rparr>,
                     \<lparr>type_v = STRING, start = cur r + 1, end_v = cur r + 1 + int k,
                      depth_v = depth r\<rparr>)
         \<and> charAt (data r) (cur r + 1 + int k) = Some (CHR 0x22)
         \<and> (end_r r \<le> int (length (data r)) \<longrightarrow>
              bjGetString (fst (bjRead r)) (snd (bjRead r))
                = Inr (take k (drop (nat (cur r) + 1) (data r))))
     | None \<Rightarrow>
         bjRead r = (r\<lparr>cur := end_r r, error := Some ''unclosed string''\<rparr>,
                     \<lparr>type_v = ERROR, start = cur r, end_v = end_r r, depth_v = depth r\<rparr>))"
proof -
  have le: "cur (r\<lparr>cur := cur r + 1\<rparr>) \<le> end_r (r\<lparr>cur := cur r + 1\<rparr>)"
    using assms(2) by simp
  note sl = string_loop_closing_quote [OF le, simplified]
  note body = bjRead_body_string [OF assms]
  from assms(3) have nn: "0 \<le> cur r" by (simp add: charAt_def split: if_splits)
  show ?thesis
  proof (cases "closing_quote (map (charAt (data r)) [cur r + 1..end_r r - 1])")
    case None
    with sl body show ?thesis by (simp add: bjRead.simps [of r])
  next
    case (Some k)
    with sl body have rd: "bjRead r = (r\<lparr>cur := cur r + int k + 2\<rparr>,
                     \<lparr>type_v = STRING, start = cur r + 1, end_v = cur r + 1 + int k,
                      depth_v = depth r\<rparr>)"
      by (simp add: bjRead.simps [of r])
    from sl Some
    have c1: "cur (fst (bjRead_string_loop (r\<lparr>cur := cur r + 1\<rparr>))) = cur r + 1 + int k"
      and c2: "snd (bjRead_string_loop (r\<lparr>cur := cur r + 1\<rparr>))"
      by simp_all
    from string_loop_frame [of "r\<lparr>cur := cur r + 1\<rparr>"] c2
    obtain c where c: "fst (bjRead_string_loop (r\<lparr>cur := cur r + 1\<rparr>)) = r\<lparr>cur := c\<rparr>"
      "c < end_r r" "charAt (data r) c = Some (CHR 0x22)"
      by auto
    from c(1) c1 have "c = cur r + 1 + int k" by simp
    with c have q: "charAt (data r) (cur r + 1 + int k) = Some (CHR 0x22)"
      "cur r + 1 + int k < end_r r"
      by simp_all
    have "end_r r \<le> int (length (data r)) \<longrightarrow>
              bjGetString (fst (bjRead r)) (snd (bjRead r))
                = Inr (take k (drop (nat (cur r) + 1) (data r)))"
      using q(2) nn substring_inside [of "cur r + 1" k "data r"]
      by (auto simp add: rd bjGetString_def nat_add_distrib)
    with rd q Some show ?thesis by simp
  qed
qed

text \<open>
  The text \<^verbatim>\<open>"a\"b"\<close> followed by a blank: the escaped quote does not close the string, and
  the accessor returns the four characters \<^verbatim>\<open>a\"b\<close>. The text \<^verbatim>\<open>"unclosed\<close> sets the error.
\<close>

theorem bjRead_string_span_witness:
  \<open>\<not> truthy (error (bjReader [CHR 0x22, CHR ''a'', CHR 0x5C, CHR 0x22, CHR ''b'', CHR 0x22, CHR '' '']))
   \<and> charAt [CHR 0x22, CHR ''a'', CHR 0x5C, CHR 0x22, CHR ''b'', CHR 0x22, CHR '' ''] 0
        = Some (CHR 0x22)
   \<and> closing_quote (map (charAt [CHR 0x22, CHR ''a'', CHR 0x5C, CHR 0x22, CHR ''b'', CHR 0x22,
        CHR '' '']) [1..6]) = Some 4
   \<and> bjRead (bjReader [CHR 0x22, CHR ''a'', CHR 0x5C, CHR 0x22, CHR ''b'', CHR 0x22, CHR '' ''])
       = (\<lparr>data = [CHR 0x22, CHR ''a'', CHR 0x5C, CHR 0x22, CHR ''b'', CHR 0x22, CHR '' ''],
           cur = 6, end_r = 7, depth = 0, error = None\<rparr>,
          \<lparr>type_v = STRING, start = 1, end_v = 5, depth_v = 0\<rparr>)
   \<and> bjGetString
        (fst (bjRead (bjReader [CHR 0x22, CHR ''a'', CHR 0x5C, CHR 0x22, CHR ''b'', CHR 0x22, CHR '' ''])))
        (snd (bjRead (bjReader [CHR 0x22, CHR ''a'', CHR 0x5C, CHR 0x22, CHR ''b'', CHR 0x22, CHR '' ''])))
       = Inr [CHR ''a'', CHR 0x5C, CHR 0x22, CHR ''b'']
   \<and> closing_quote (map (charAt ''"unclosed'') [1..8]) = None
   \<and> bjRead (bjReader ''"unclosed'')
       = (\<lparr>data = ''"unclosed'', cur = 9, end_r = 9, depth = 0, error = Some ''unclosed string''\<rparr>,
          \<lparr>type_v = ERROR, start = 0, end_v = 9, depth_v = 0\<rparr>)\<close>
  using bjRead_string_span
      [of "bjReader [CHR 0x22, CHR ''a'', CHR 0x5C, CHR 0x22, CHR ''b'', CHR 0x22, CHR '' '']"]
    bjRead_string_span [of "bjReader (CHR 0x22 # ''unclosed'')"]
  by code_simp

section \<open>Kind checks of the accessors\<close>

text \<open>
  Claim C8. The string, number and bool accessors throw (\<^verbatim>\<open>Value is not a ...\<close>) exactly
  when the Kind of the value is not theirs; on a value of their Kind they return a
  result and never throw. They do not read the reader's error, so the outcome is the
  same whatever parse-time error is stored.
\<close>

theorem accessor_type_check:
  "(type_v v \<noteq> STRING \<longrightarrow> bjGetString r v = Inl (Error ''Value is not a string''))
   \<and> (type_v v = STRING \<longrightarrow> bjGetString r v = Inr (substring (data r) (start v) (end_v v)))
   \<and> (type_v v \<noteq> NUMBER \<longrightarrow> bjGetNumber r v = Inl (Error ''Value is not a number''))
   \<and> (type_v v = NUMBER \<longrightarrow>
        bjGetNumber r v = Inr (parseFloat (substring (data r) (start v) (end_v v))))
   \<and> (type_v v \<noteq> BOOL \<longrightarrow> bjGetBool r v = Inl (Error ''Value is not a boolean''))
   \<and> (type_v v = BOOL \<longrightarrow>
        bjGetBool r v = Inr (substring (data r) (start v) (end_v v) = ''true''))
   \<and> bjGetString (r\<lparr>error := e\<rparr>) v = bjGetString r v
   \<and> bjGetNumber (r\<lparr>error := e\<rparr>) v = bjGetNumber r v
   \<and> bjGetBool (r\<lparr>error := e\<rparr>) v = bjGetBool r v"
  by (simp add: bjGetString_def bjGetNumber_def bjGetBool_def)

theorem accessor_type_check_witness:
  \<open>type_v (snd (bjRead (bjReader ''42''))) = NUMBER
   \<and> bjGetString (bjReader ''42'') (snd (bjRead (bjReader ''42'')))
       = Inl (Error ''Value is not a string'')
   \<and> bjGetBool (bjReader ''42'') (snd (bjRead (bjReader ''42'')))
       = Inl (Error ''Value is not a boolean'')
   \<and> bjGetNumber (bjReader ''42'') (snd (bjRead (bjReader ''42''))) = Inr (Decimal 42 0)
   \<and> bjGetBool (bjReader ''true'') (snd (bjRead (bjReader ''true''))) = Inr True
   \<and> bjGetString (bjReader ''"hi"'') (snd (bjRead (bjReader ''"hi"''))) = Inr ''hi''\<close>
  using accessor_type_check [of "snd (bjRead (bjReader ''42''))" "bjReader ''42''"]
  by code_simp

section \<open>The cursor only moves forward\<close>

lemma bjIterArray_frame:
  "data (fst (bjIterArray r arr)) = data r \<and> end_r (fst (bjIterArray r arr)) = end_r r \<and>
   cur r \<le> cur (fst (bjIterArray r arr)) \<and>
   (cur r \<le> end_r r \<longrightarrow> cur (fst (bjIterArray r arr)) \<le> end_r r)"
proof -
  obtain r2 val where rd: "bjRead (bjDiscardUntil r (depth_v arr)) = (r2, val)"
    by (cases "bjRead (bjDiscardUntil r (depth_v arr))")
  then have "fst (bjIterArray r arr) = r2"
    by (simp add: bjIterArray_def Let_def)
  with bjRead_frame [OF rd] bjDiscardUntil_frame [of r "depth_v arr"]
  show ?thesis by (auto simp: frame_def)
qed

lemma bjIterObject_frame:
  "data (fst (bjIterObject r obj)) = data r \<and> end_r (fst (bjIterObject r obj)) = end_r r \<and>
   cur r \<le> cur (fst (bjIterObject r obj)) \<and>
   (cur r \<le> end_r r \<longrightarrow> cur (fst (bjIterObject r obj)) \<le> end_r r)"
proof -
  obtain r2 key where rd: "bjRead (bjDiscardUntil r (depth_v obj)) = (r2, key)"
    by (cases "bjRead (bjDiscardUntil r (depth_v obj))")
  obtain r3 val where rd2: "bjRead r2 = (r3, val)" by (cases "bjRead r2")
  from rd rd2 have "fst (bjIterObject r obj) = r2 \<or> fst (bjIterObject r obj) = r3
      \<or> fst (bjIterObject r obj) = r3\<lparr>error := Some ''unexpected object end''\<rparr>"
    by (simp add: bjIterObject_def Let_def)
  with bjRead_frame [OF rd] bjRead_frame [OF rd2] bjDiscardUntil_frame [of r "depth_v obj"]
  show ?thesis by (auto simp: frame_def)
qed

text \<open>
  Claim C9. A call of \<^verbatim>\<open>bjRead\<close> never moves the cursor back and changes neither the
  buffer nor its end; when the cursor is within the buffer before the call (as it is in a
  reader made by \<^verbatim>\<open>bjReader\<close>, whose end is the length of the text) it is within the
  buffer after it. The same holds for \<^verbatim>\<open>bjDiscardUntil\<close> and for every step of the array
  and object iterators.
\<close>

theorem cursor_monotone:
  "cur r \<le> cur (fst (bjRead r))
   \<and> data (fst (bjRead r)) = data r \<and> end_r (fst (bjRead r)) = end_r r
   \<and> (cur r \<le> end_r r \<longrightarrow> cur (fst (bjRead r)) \<le> end_r r)
   \<and> cur r \<le> cur (bjDiscardUntil r d)
   \<and> (cur r \<le> end_r r \<longrightarrow> cur (bjDiscardUntil r d) \<le> end_r r)
   \<and> cur r \<le> cur (fst (bjIterArray r c))
   \<and> (cur r \<le> end_r r \<longrightarrow> cur (fst (bjIterArray r c)) \<le> end_r r)
   \<and> cur r \<le> cur (fst (bjIterObject r c))
   \<and> (cur r \<le> end_r r \<longrightarrow> cur (fst (bjIterObject r c)) \<le> end_r r)
   \<and> cur (bjReader s) \<le> end_r (bjReader s) \<and> end_r (bjReader s) = int (length s)"
proof -
  obtain r' v where rd: "bjRead r = (r', v)" by (cases "bjRead r")
  from bjRead_frame [OF rd] rd
  have "cur r \<le> cur (fst (bjRead r)) \<and> data (fst (bjRead r)) = data r
      \<and> end_r (fst (bjRead r)) = end_r r
      \<and> (cur r \<le> end_r r \<longrightarrow> cur (fst (bjRead r)) \<le> end_r r)"
    by (simp add: frame_def)
  with bjDiscardUntil_frame [of r d] bjIterArray_frame [of r c] bjIterObject_frame [of r c]
  show ?thesis by (simp add: bjReader_def)
qed

theorem cursor_monotone_witness:
  "cur (bjReader ''[1, 2]'') \<le> end_r (bjReader ''[1, 2]'')
   \<and> cur (bjReader ''[1, 2]'') \<le> cur (fst (bjRead (bjReader ''[1, 2]'')))
   \<and> cur (fst (bjRead (bjReader ''[1, 2]''))) = 1
   \<and> cur (fst (bjRead (bjReader ''[1, 2]''))) \<le> end_r (bjReader ''[1, 2]'')"
  using cursor_monotone [of "bjReader ''[1, 2]''" 0 undefined "''''"]
  by (simp add: bjReader_def bjRead.simps bjRead_body_def charAt_def truthy_def Let_def errorValue_def)

section \<open>Termination and step bounds\<close>

text \<open>
  The two loops once more, each with a counter beside its result: \<open>bjRead_counted\<close>
  counts the passes of \<^verbatim>\<open>bjRead\<close> that end in \<^verbatim>\<open>continue\<close>, and \<open>bjDiscardUntil_counted\<close>
  counts the calls of \<^verbatim>\<open>bjRead\<close> made by \<^verbatim>\<open>bjDiscardUntil\<close>. The first components are the
  results of the loops themselves (\<open>bjRead_counted_fst\<close>, \<open>bjDiscardUntil_counted_fst\<close>).
\<close>

function bjRead_counted :: "BjReader \<Rightarrow> (BjReader \<times> BjValue) \<times> nat" where
  "bjRead_counted r =
     (case bjRead_body r of
        Return r' v \<Rightarrow> ((r', v), 0)
      | Continue r' \<Rightarrow> (case bjRead_counted r' of (res, n) \<Rightarrow> (res, n + 1)))"
  by pat_completeness auto
termination
  apply (relation "measure (\<lambda>r. nat (end_r r - cur r))")
   apply simp
  subgoal for r r'
    using bjRead_body_Continue [of r r'] by auto
  done

function bjDiscardUntil_counted :: "BjReader \<Rightarrow> int \<Rightarrow> BjValue \<Rightarrow> BjReader \<times> nat" where
  "bjDiscardUntil_counted r d val =
     (if depth r \<noteq> d \<and> type_v val \<noteq> ERROR
      then (case bjRead r of (r', val') \<Rightarrow>
              (case bjDiscardUntil_counted r' d val' of (res, n) \<Rightarrow> (res, n + 1)))
      else (r, 0))"
  by pat_completeness auto
termination
  apply (relation "measure (\<lambda>(r, d, val). if type_v val = ERROR then 0 else 1 + nat (end_r r - cur r))")
   apply simp
  subgoal for r d val r' val'
    using bjRead_frame [of r r' val'] by (auto simp: frame_def)
  done

declare bjRead_counted.simps [simp del] bjDiscardUntil_counted.simps [simp del]

lemma bjRead_counted_fst: "fst (bjRead_counted r) = bjRead r"
proof (induction r rule: bjRead_counted.induct)
  case (1 r)
  show ?case
  proof (cases "bjRead_body r")
    case (Return r' v)
    then show ?thesis by (simp add: bjRead_counted.simps [of r] bjRead.simps [of r])
  next
    case (Continue r')
    with "1.IH" [OF Continue] show ?thesis
      by (cases "bjRead_counted r'") (simp add: bjRead_counted.simps [of r] bjRead.simps [of r])
  qed
qed

lemma bjRead_counted_bound: "snd (bjRead_counted r) \<le> nat (end_r r - cur r)"
proof (induction r rule: bjRead_counted.induct)
  case (1 r)
  show ?case
  proof (cases "bjRead_body r")
    case (Return r' v)
    then show ?thesis by (simp add: bjRead_counted.simps [of r])
  next
    case (Continue r')
    with "1.IH" [OF Continue] bjRead_body_Continue [OF Continue] show ?thesis
      by (auto simp add: bjRead_counted.simps [of r] split: prod.splits)
  qed
qed

lemma bjDiscardUntil_counted_fst:
  "fst (bjDiscardUntil_counted r d val) = bjDiscardUntil_loop r d val"
proof (induction r d val rule: bjDiscardUntil_counted.induct)
  case (1 r d val)
  show ?case
  proof (cases "depth r \<noteq> d \<and> type_v val \<noteq> ERROR")
    case True
    obtain r' val' where rd: "bjRead r = (r', val')" by (cases "bjRead r")
    from "1.IH" [OF True rd [symmetric]] True rd show ?thesis
      by (cases "bjDiscardUntil_counted r' d val'")
        (simp add: bjDiscardUntil_counted.simps [of r] bjDiscardUntil_loop.simps [of r])
  next
    case False
    then show ?thesis
      by (subst bjDiscardUntil_counted.simps, subst bjDiscardUntil_loop.simps) auto
  qed
qed

lemma bjDiscardUntil_counted_bound:
  "snd (bjDiscardUntil_counted r d val)
     \<le> (if type_v val = ERROR then 0 else 1 + nat (end_r r - cur r))"
proof (induction r d val rule: bjDiscardUntil_counted.induct)
  case (1 r d val)
  show ?case
  proof (cases "depth r \<noteq> d \<and> type_v val \<noteq> ERROR")
    case True
    obtain r' val' where rd: "bjRead r = (r', val')" by (cases "bjRead r")
    obtain res n where dc: "bjDiscardUntil_counted r' d val' = (res, n)"
      by (cases "bjDiscardUntil_counted r' d val'")
    from True rd dc have eq: "snd (bjDiscardUntil_counted r d val) = n + 1"
      by (simp add: bjDiscardUntil_counted.simps [of r])
    from "1.IH" [OF True rd [symmetric]] dc
    have "n \<le> (if type_v val' = ERROR then 0 else 1 + nat (end_r r' - cur r'))" by simp
    with bjRead_frame [OF rd] True show ?thesis
      unfolding eq by (auto simp: frame_def split: if_splits)
  next
    case False
    then have "bjDiscardUntil_counted r d val = (r, 0)"
      by (subst bjDiscardUntil_counted.simps) auto
    then show ?thesis by simp
  qed
qed

text \<open>
  Claim C10. \<^verbatim>\<open>bjRead\<close> and \<^verbatim>\<open>bjDiscardUntil\<close> are total functions (their definitions come
  with termination proofs). A pass of \<^verbatim>\<open>bjRead\<close> that does not return advances the cursor
  by one, so at most \<open>end - cur\<close> passes continue before one returns. A call of \<^verbatim>\<open>bjRead\<close>
  that returns no Error Value has strictly advanced the cursor, and one that returns an
  Error Value leaves the error set; so \<^verbatim>\<open>bjDiscardUntil\<close> makes at most \<open>end - cur + 1\<close>
  calls of \<^verbatim>\<open>bjRead\<close>, and when it returns the depth is the target depth or the error is
  set.
\<close>

theorem scanner_terminates:
  "fst (bjRead_counted r) = bjRead r
   \<and> snd (bjRead_counted r) \<le> nat (end_r r - cur r)
   \<and> (type_v (snd (bjRead r)) \<noteq> ERROR \<longrightarrow> cur r < cur (fst (bjRead r)))
   \<and> (type_v (snd (bjRead r)) = ERROR \<longrightarrow> truthy (error (fst (bjRead r))))
   \<and> fst (bjDiscardUntil_counted r d \<lparr>type_v = NULL, start = 0, end_v = 0, depth_v = 0\<rparr>)
       = bjDiscardUntil r d
   \<and> snd (bjDiscardUntil_counted r d \<lparr>type_v = NULL, start = 0, end_v = 0, depth_v = 0\<rparr>)
       \<le> 1 + nat (end_r r - cur r)
   \<and> (depth (bjDiscardUntil r d) = d \<or> truthy (error (bjDiscardUntil r d)))"
proof -
  obtain r' v where rd: "bjRead r = (r', v)" by (cases "bjRead r")
  from bjRead_frame [OF rd] rd
  have "(type_v (snd (bjRead r)) \<noteq> ERROR \<longrightarrow> cur r < cur (fst (bjRead r)))
      \<and> (type_v (snd (bjRead r)) = ERROR \<longrightarrow> truthy (error (fst (bjRead r))))"
    by (simp add: frame_def)
  moreover have "snd (bjDiscardUntil_counted r d \<lparr>type_v = NULL, start = 0, end_v = 0, depth_v = 0\<rparr>)
       \<le> 1 + nat (end_r r - cur r)"
    using bjDiscardUntil_counted_bound [of r d "\<lparr>type_v = NULL, start = 0, end_v = 0, depth_v = 0\<rparr>"]
    by simp
  ultimately show ?thesis
    using bjRead_counted_fst [of r] bjRead_counted_bound [of r] bjDiscardUntil_exit [of r d]
      bjDiscardUntil_counted_fst [of r d "\<lparr>type_v = NULL, start = 0, end_v = 0, depth_v = 0\<rparr>"]
    by (simp add: bjDiscardUntil_def)
qed

theorem scanner_terminates_witness:
  "type_v (snd (bjRead (bjReader '' , : 12''))) \<noteq> ERROR
   \<and> cur (bjReader '' , : 12'') < cur (fst (bjRead (bjReader '' , : 12'')))
   \<and> snd (bjRead_counted (bjReader '' , : 12'')) = 5
   \<and> type_v (snd (bjRead (bjReader ''x''))) = ERROR
   \<and> truthy (error (fst (bjRead (bjReader ''x''))))"
  using scanner_terminates [of "bjReader '' , : 12''" 0] scanner_terminates [of "bjReader ''x''" 0]
  by code_simp

end
